theory Spec2Isabelle
  imports Complex_Main "HOL-Library.Word" "HOL-Library.Sublist"
begin

unbundle bit_operations_syntax

section \<open>Persisted event queue (core/queue.ts)\<close>

text \<open>
  An \<open>ErrorEvent\<close> is the unit of delivery.  The queue reads only \<open>event_id\<close> and
  \<open>timestamp\<close>; the error descriptor and the severity are carried along, the optional
  pass-through fields (context, user, request, state, breadcrumbs, tags, extra) are not
  inspected by any function modelled here and are left out of the record.
\<close>

datatype SeverityLevel = Debug | Info | Warning | Error | Fatal

record ErrorEvent =
  event_id :: string
  timestamp :: int
  level :: SeverityLevel
  error_message :: string
  error_type :: string
  stack_trace :: "string option"

text \<open>
  What \<open>storage.getItem(QUEUE_STORAGE_KEY)\<close> can hold: nothing, text that
  \<open>JSON.parse\<close> rejects, JSON that is not an array, or an array of events.
\<close>

datatype stored = Absent | Corrupt | NotArray | Events "ErrorEvent list"

record ErrorQueue =
  queue :: "ErrorEvent list"
  maxSize :: int
  store :: stored

definition MAX_AGE_MS :: int where
  "MAX_AGE_MS = 7 * 24 * 60 * 60 * 1000"

text \<open>
  \<open>persist\<close>: \<open>storage.setItem\<close> (utils/storage.ts) swallows every exception of
  \<open>localStorage\<close> and falls back to its memory store, so the \<open>catch\<close> of \<open>persist\<close>
  is entered only when \<open>JSON.stringify\<close> throws, which it does not on the data records
  above; the in-memory queue is never changed by \<open>persist\<close>.
\<close>

definition persist :: "ErrorQueue \<Rightarrow> ErrorQueue" where
  "persist q = q\<lparr>store := Events (queue q)\<rparr>"

definition restore :: "int \<Rightarrow> ErrorQueue \<Rightarrow> ErrorQueue" where
  "restore now q =
     (case store q of
        Absent \<Rightarrow> q
      | Corrupt \<Rightarrow> q\<lparr>queue := [], store := Absent\<rparr>
      | NotArray \<Rightarrow> q\<lparr>queue := [], store := Absent\<rparr>
      | Events parsed \<Rightarrow>
          (let q' = q\<lparr>queue := filter (\<lambda>event. now - timestamp event < MAX_AGE_MS) parsed\<rparr>
           in if length (queue q') \<noteq> length parsed then persist q' else q'))"

text \<open>The constructor: \<open>this.queue = []\<close>, \<open>this.maxSize = maxSize\<close>, \<open>this.restore()\<close>.\<close>

definition new_ErrorQueue :: "int \<Rightarrow> int \<Rightarrow> stored \<Rightarrow> ErrorQueue" where
  "new_ErrorQueue maxSize0 now st = restore now \<lparr>queue = [], maxSize = maxSize0, store = st\<rparr>"

text \<open>\<open>add\<close>: push, then a single \<open>shift\<close> when the length exceeds \<open>maxSize\<close>, then persist.\<close>

definition add :: "ErrorQueue \<Rightarrow> ErrorEvent \<Rightarrow> ErrorQueue" where
  "add q event =
     (let pushed = queue q @ [event];
          kept = (if int (length pushed) > maxSize q then tl pushed else pushed)
      in persist (q\<lparr>queue := kept\<rparr>))"

definition getAll :: "ErrorQueue \<Rightarrow> ErrorEvent list" where
  "getAll q = queue q"

definition clear :: "ErrorQueue \<Rightarrow> ErrorQueue" where
  "clear q = persist (q\<lparr>queue := []\<rparr>)"

definition size_queue :: "ErrorQueue \<Rightarrow> nat" where
  "size_queue q = length (queue q)"

definition remove :: "ErrorQueue \<Rightarrow> string list \<Rightarrow> ErrorQueue" where
  "remove q eventIds =
     (let idsSet = set eventIds
      in persist (q\<lparr>queue := filter (\<lambda>event. event_id event \<notin> idsSet) (queue q)\<rparr>))"

text \<open>A sequence of \<open>add\<close> calls, oldest first.\<close>

definition add_all :: "ErrorQueue \<Rightarrow> ErrorEvent list \<Rightarrow> ErrorQueue" where
  "add_all q events = foldl add q events"

text \<open>A sample event with the given id and timestamp.\<close>

definition ev :: "string \<Rightarrow> int \<Rightarrow> ErrorEvent" where
  "ev i t = \<lparr>event_id = i, timestamp = t, level = Error, error_message = ''boom'',
             error_type = ''Error'', stack_trace = None\<rparr>"

section \<open>Deduplication (core/fingerprint.ts, class DeduplicationManager)\<close>

record DeduplicationEntry =
  count :: int
  firstSeen :: int
  lastSeen :: int

record DeduplicationManager =
  seen :: "string \<rightharpoonup> DeduplicationEntry"
  windowMs :: int
  maxCount :: int

definition new_DeduplicationManager :: "int \<Rightarrow> int \<Rightarrow> DeduplicationManager" where
  "new_DeduplicationManager w c = \<lparr>seen = Map.empty, windowMs = w, maxCount = c\<rparr>"

text \<open>
  \<open>shouldCapture\<close>, with the value of \<open>Date.now()\<close> passed in.  The result is the
  answer and the manager after the call (the entry is mutated in place in the source).
\<close>

definition shouldCapture :: "DeduplicationManager \<Rightarrow> int \<Rightarrow> string \<Rightarrow> bool \<times> DeduplicationManager" where
  "shouldCapture m now fingerprint =
     (case seen m fingerprint of
        None \<Rightarrow>
          (True, m\<lparr>seen := (seen m)(fingerprint \<mapsto> \<lparr>count = 1, firstSeen = now, lastSeen = now\<rparr>)\<rparr>)
      | Some existing \<Rightarrow>
          if now - firstSeen existing > windowMs m
          then (True, m\<lparr>seen := (seen m)(fingerprint \<mapsto> \<lparr>count = 1, firstSeen = now, lastSeen = now\<rparr>)\<rparr>)
          else (let existing' = existing\<lparr>count := count existing + 1, lastSeen := now\<rparr>
                in (count existing' \<le> maxCount m,
                    m\<lparr>seen := (seen m)(fingerprint \<mapsto> existing')\<rparr>)))"

definition getStats :: "DeduplicationManager \<Rightarrow> string \<Rightarrow> DeduplicationEntry option" where
  "getStats m fingerprint = seen m fingerprint"

definition getSuppressedCount :: "DeduplicationManager \<Rightarrow> string \<Rightarrow> int" where
  "getSuppressedCount m fingerprint =
     (case getStats m fingerprint of None \<Rightarrow> 0 | Some stats \<Rightarrow> max 0 (count stats - maxCount m))"

definition prune :: "DeduplicationManager \<Rightarrow> int \<Rightarrow> DeduplicationManager" where
  "prune m now =
     m\<lparr>seen := (\<lambda>key. case seen m key of
                        None \<Rightarrow> None
                      | Some v \<Rightarrow> if now - lastSeen v > windowMs m then None else Some v)\<rparr>"

text \<open>
  A run of \<open>shouldCapture\<close> calls on one fingerprint at the given clock readings: the
  answers in call order, and the manager afterwards.
\<close>

fun shouldCapture_calls :: "DeduplicationManager \<Rightarrow> string \<Rightarrow> int list \<Rightarrow> bool list \<times> DeduplicationManager" where
  "shouldCapture_calls m fp [] = ([], m)"
| "shouldCapture_calls m fp (now # later) =
     (let (r, m') = shouldCapture m now fp;
          (rs, m'') = shouldCapture_calls m' fp later
      in (r # rs, m''))"

section \<open>Transport (core/transport.ts)\<close>

subsection \<open>Numbers as text\<close>

text \<open>
  The template literal \<open>`HTTP ${response.status}: ...`\<close> renders a number in decimal, and
  \<open>parseInt(retryAfter, 10)\<close> reads one.  Characters are identified with their codes.
\<close>

definition digit_char :: "nat \<Rightarrow> char" where
  "digit_char d = ''0123456789'' ! d"

function decimal :: "nat \<Rightarrow> string" where
  "decimal n = (if n < 10 then [digit_char n] else decimal (n div 10) @ [digit_char (n mod 10)])"
  by pat_completeness auto
termination
  by (relation "measure (\<lambda>n. n)") auto

definition isDigit :: "char \<Rightarrow> bool" where
  "isDigit c = (48 \<le> (of_char c :: nat) \<and> (of_char c :: nat) \<le> 57)"

definition digit_value :: "char \<Rightarrow> nat" where
  "digit_value c = of_char c - 48"

text \<open>
  White space and line terminators of ECMAScript within the 8-bit range: TAB, LF, VT, FF,
  CR, SPACE and NBSP.  \<open>parseInt\<close> and \<open>trim\<close> strip them, and \<open>\s\<close> matches them.
\<close>

definition isWhiteSpace :: "char \<Rightarrow> bool" where
  "isWhiteSpace c = ((of_char c :: nat) \<in> {9, 10, 11, 12, 13, 32, 160})"

definition digits_value :: "string \<Rightarrow> nat" where
  "digits_value ds = foldl (\<lambda>acc c. acc * 10 + digit_value c) 0 ds"

text \<open>
  \<open>parseInt(s, 10)\<close>: leading white space is skipped, one sign is read, then the longest
  run of decimal digits; \<open>None\<close> is \<open>NaN\<close> (no digit there).
\<close>

definition parseInt :: "string \<Rightarrow> int option" where
  "parseInt s =
     (let s1 = dropWhile isWhiteSpace s;
          sign = (case s1 of [] \<Rightarrow> 1 | c # _ \<Rightarrow> if c = CHR ''-'' then - 1 else (1 :: int));
          s2 = (case s1 of [] \<Rightarrow> [] | c # cs \<Rightarrow> if c = CHR ''-'' \<or> c = CHR ''+'' then cs else s1);
          ds = takeWhile isDigit s2
      in if ds = [] then None else Some (sign * int (digits_value ds)))"

subsection \<open>Responses\<close>

text \<open>
  What \<open>await response.json()\<close> followed by \<open>data.event_ids\<close> can do: throw (a body
  that is not JSON, or JSON \<open>null\<close>), or produce a value whose \<open>event_ids\<close> is either
  truthy (an array of ids, the empty array included) or missing.
\<close>

datatype jsonBody = JsonThrows string | JsonData "string list option"

record Response =
  status :: nat
  bodyText :: string
  json :: jsonBody
  retryAfter :: "string option"

text \<open>One call of \<open>fetch\<close>: it rejects (a network error, with its message) or resolves.\<close>

datatype fetchResult = NetworkError string | Resp Response

definition ok :: "Response \<Rightarrow> bool" where
  "ok r = (200 \<le> status r \<and> status r \<le> 299)"

record TransportResponse =
  success :: bool
  eventIds :: "string list option"
  error :: "string option"

record Transport =
  endpoint :: string
  maxAttempts :: nat
  baseDelayMs :: int
  maxDelayMs :: int

text \<open>
  The constructor takes the delays from \<open>DEFAULT_RETRY_CONFIG\<close>.  The authentication
  fields and \<open>payloadKey\<close> only shape the request and are left out.
\<close>

definition new_Transport :: "string \<Rightarrow> nat \<Rightarrow> Transport" where
  "new_Transport endpoint0 retryAttempts =
     \<lparr>endpoint = endpoint0, maxAttempts = retryAttempts, baseDelayMs = 1000, maxDelayMs = 30000\<rparr>"

text \<open>
  \<open>calculateBackoffDelay\<close>; \<open>r\<close> is the value of \<open>Math.random()\<close>, in \<open>[0, 1)\<close>.  The
  products and the sum are those of the real numbers.  The code computes them in IEEE
  doubles: \<open>baseDelayMs * 2 ^ attempt\<close> is exact there (below the overflow of the
  exponent), while the jitter and the sum are rounded, so that for an \<open>r\<close> at which the
  real sum lies within the rounding error of a whole number the \<open>floor\<close> of the code
  can differ by one from the \<open>floor\<close> here.
\<close>

definition calculateBackoffDelay :: "Transport \<Rightarrow> real \<Rightarrow> nat \<Rightarrow> int" where
  "calculateBackoffDelay t r attempt =
     (let exponentialDelay = real_of_int (baseDelayMs t) * 2 ^ attempt;
          jitter = r * 0.3 * exponentialDelay
      in min \<lfloor>exponentialDelay + jitter\<rfloor> (maxDelayMs t))"

definition isRetryableError :: "nat \<Rightarrow> bool" where
  "isRetryableError st =
     (if st \<ge> 500 \<and> st < 600 then True
      else if st = 429 then True
      else if st = 408 then True
      else False)"

text \<open>
  The delay of the response branch (lines 91 to 98): the backoff delay, replaced by the
  capped \<open>Retry-After\<close> value when the header is a non-empty string that \<open>parseInt\<close> reads.
\<close>

definition retryDelay :: "Transport \<Rightarrow> real \<Rightarrow> nat \<Rightarrow> Response \<Rightarrow> int" where
  "retryDelay t r attempt response =
     (let delay = calculateBackoffDelay t r attempt
      in case retryAfter response of
           None \<Rightarrow> delay
         | Some header \<Rightarrow>
             if header = [] then delay
             else (case parseInt header of
                     None \<Rightarrow> delay
                   | Some retryAfterSeconds \<Rightarrow> min (retryAfterSeconds * 1000) (maxDelayMs t)))"

text \<open>
  What \<open>send\<close> returns, together with what it did: the number of \<open>fetch\<close> calls and the
  delays it slept, in order.
\<close>

record SendOutcome =
  response :: TransportResponse
  fetches :: nat
  sleeps :: "int list"

definition httpError :: "nat \<Rightarrow> string \<Rightarrow> string" where
  "httpError st msg = ''HTTP '' @ decimal st @ '': '' @ msg"

text \<open>
  The \<open>for\<close> loop of \<open>send\<close>.  \<open>fetch k\<close> is the outcome of the call made in attempt
  \<open>k\<close>, \<open>rnd k\<close> the random number drawn in attempt \<open>k\<close> (an attempt draws at most one).
  An exception inside the \<open>try\<close> (a rejected \<open>fetch\<close>, a throwing \<open>json()\<close>) lands in
  the \<open>catch\<close>.
\<close>

function send_loop ::
  "Transport \<Rightarrow> (nat \<Rightarrow> fetchResult) \<Rightarrow> (nat \<Rightarrow> real) \<Rightarrow> ErrorEvent list
     \<Rightarrow> nat \<Rightarrow> string \<Rightarrow> nat option \<Rightarrow> int list \<Rightarrow> SendOutcome" where
  "send_loop t fetch rnd events attempt lastError lastStatus slept =
     (if attempt < maxAttempts t then
        (let caught = (\<lambda>msg.
               send_loop t fetch rnd events (Suc attempt) msg None
                 (if Suc attempt < maxAttempts t
                  then slept @ [calculateBackoffDelay t (rnd attempt) attempt] else slept))
         in case fetch attempt of
              NetworkError msg \<Rightarrow> caught msg
            | Resp r \<Rightarrow>
                if ok r then
                  (case json r of
                     JsonThrows msg \<Rightarrow> caught msg
                   | JsonData event_ids \<Rightarrow>
                       \<lparr>response = \<lparr>success = True,
                                     eventIds = Some (case event_ids of
                                                        Some ids \<Rightarrow> ids
                                                      | None \<Rightarrow> map event_id events),
                                     error = None\<rparr>,
                        fetches = Suc attempt, sleeps = slept\<rparr>)
                else if \<not> isRetryableError (status r) then
                  \<lparr>response = \<lparr>success = False, eventIds = None,
                                error = Some (httpError (status r) (bodyText r))\<rparr>,
                   fetches = Suc attempt, sleeps = slept\<rparr>
                else
                  send_loop t fetch rnd events (Suc attempt) (bodyText r) (Some (status r))
                    (if Suc attempt < maxAttempts t
                     then slept @ [retryDelay t (rnd attempt) attempt r] else slept))
      else
        \<lparr>response = \<lparr>success = False, eventIds = None,
                      error = Some (case lastStatus of
                                      Some st \<Rightarrow> httpError st lastError
                                    | None \<Rightarrow> lastError)\<rparr>,
         fetches = attempt, sleeps = slept\<rparr>)"
  by pat_completeness auto
termination
  by (relation "measure (\<lambda>(t, fetch, rnd, events, attempt, lastError, lastStatus, slept).
                            maxAttempts t - attempt)") auto

definition send :: "Transport \<Rightarrow> (nat \<Rightarrow> fetchResult) \<Rightarrow> (nat \<Rightarrow> real) \<Rightarrow> ErrorEvent list \<Rightarrow> SendOutcome" where
  "send t fetch rnd events =
     (if endpoint t = [] then
        \<lparr>response = \<lparr>success = False, eventIds = None, error = Some ''No endpoint configured''\<rparr>,
         fetches = 0, sleeps = []\<rparr>
      else if length events = 0 then
        \<lparr>response = \<lparr>success = True, eventIds = Some [], error = None\<rparr>,
         fetches = 0, sleeps = []\<rparr>
      else send_loop t fetch rnd events 0 [] None [])"

text \<open>
  The ways an attempt can end without \<open>send\<close> returning: an exception, or a response
  that is not ok with a retryable status.
\<close>

definition retried :: "fetchResult \<Rightarrow> bool" where
  "retried x =
     (case x of
        NetworkError msg \<Rightarrow> True
      | Resp r \<Rightarrow> if ok r then (case json r of JsonThrows msg \<Rightarrow> True | JsonData ids \<Rightarrow> False)
                  else isRetryableError (status r))"

text \<open>
  The delay computed in attempt \<open>k\<close> when the attempt is retried: the \<open>catch\<close> uses the
  backoff delay, the response branch \<open>retryDelay\<close>.
\<close>

definition attemptDelay :: "Transport \<Rightarrow> (nat \<Rightarrow> fetchResult) \<Rightarrow> (nat \<Rightarrow> real) \<Rightarrow> nat \<Rightarrow> int" where
  "attemptDelay t fetch rnd k =
     (case fetch k of
        NetworkError msg \<Rightarrow> calculateBackoffDelay t (rnd k) k
      | Resp r \<Rightarrow> if ok r then calculateBackoffDelay t (rnd k) k
                  else retryDelay t (rnd k) k r)"

definition noRetryAfter :: "fetchResult \<Rightarrow> bool" where
  "noRetryAfter x = (case x of NetworkError msg \<Rightarrow> True | Resp r \<Rightarrow> retryAfter r = None)"

definition reply :: "nat \<Rightarrow> string \<Rightarrow> string option \<Rightarrow> Response" where
  "reply st body header =
     \<lparr>status = st, bodyText = body, json = JsonThrows ''Unexpected token'', retryAfter = header\<rparr>"

definition accepted :: "string list option \<Rightarrow> Response" where
  "accepted ids = \<lparr>status = 200, bodyText = [], json = JsonData ids, retryAfter = None\<rparr>"

section \<open>Sanitizer (core/sanitizer.ts, utils/helpers.ts)\<close>

subsection \<open>Values\<close>

text \<open>
  The values the sanitizer walks.  A primitive is \<open>undefined\<close>, \<open>null\<close>, a boolean, a
  number or a string (a function, a symbol or a bigint is returned as it is, like these).  An \<open>Error\<close> instance has a name, a message and maybe a stack.  A
  \<open>Date\<close> is given by what \<open>toISOString()\<close> does on it: it returns the text, or throws a
  \<open>RangeError\<close> when the date is invalid (\<open>None\<close>).  An array is its items; a plain
  object is its own enumerable keys with their values, in \<open>for ... in\<close> order (a key
  occurs once).

  Objects and arrays are references in JavaScript, and a structure can contain itself.
  \<open>JRef a\<close> is the object or array stored at address \<open>a\<close> of the heap, so that a cycle
  is a heap cell that (directly or not) mentions its own address; \<open>JObj\<close> and \<open>JArr\<close>
  are objects and arrays written in place.
\<close>

datatype jsval =
    JUndefined
  | JNull
  | JBool bool
  | JNum int
  | JStr string
  | JError string string "string option"
  | JDate "string option"
  | JArr "jsval list"
  | JObj "(string \<times> jsval) list"
  | JRef nat

datatype cell = CObj "(string \<times> jsval) list" | CArr "jsval list"

type_synonym heap = "cell list"

text \<open>An address outside the heap stands for an empty object.\<close>

definition deref :: "heap \<Rightarrow> nat \<Rightarrow> cell" where
  "deref h a = (if a < length h then h ! a else CObj [])"

datatype exn = RangeError

subsection \<open>Key patterns\<close>

definition lower :: "char \<Rightarrow> char" where
  "lower c =
     (case map_of (zip ''ABCDEFGHIJKLMNOPQRSTUVWXYZ'' ''abcdefghijklmnopqrstuvwxyz'') c of
        Some l \<Rightarrow> l
      | None \<Rightarrow> c)"

fun startsWith :: "string \<Rightarrow> string \<Rightarrow> bool" where
  "startsWith s [] = True"
| "startsWith [] (p # ps) = False"
| "startsWith (c # cs) (p # ps) = (c = p \<and> startsWith cs ps)"

text \<open>
  A \<open>RegExp\<close> object.  \<open>matchAt s i\<close> is what the pattern does at position \<open>i\<close> of \<open>s\<close>:
  the position where its match from \<open>i\<close> ends, or \<open>None\<close> when it does not match there.
  \<open>global\<close> and \<open>sticky\<close> are the flags \<open>g\<close> and \<open>y\<close>, and \<open>lastIndex\<close> is the property
  of that name, which \<open>test\<close> reads and writes when one of the two flags is set.
\<close>

record RegExp =
  matchAt :: "string \<Rightarrow> nat \<Rightarrow> nat option"
  global :: bool
  sticky :: bool
  lastIndex :: nat

text \<open>
  The search loop of \<open>RegExp.prototype.test\<close>: the positions from \<open>i\<close> on are tried in
  turn, \<open>tries\<close> of them.
\<close>

fun firstMatch :: "(string \<Rightarrow> nat \<Rightarrow> nat option) \<Rightarrow> string \<Rightarrow> nat \<Rightarrow> nat \<Rightarrow> nat option" where
  "firstMatch m s i 0 = None"
| "firstMatch m s i (Suc tries) =
     (case m s i of
        Some e \<Rightarrow> Some e
      | None \<Rightarrow> firstMatch m s (Suc i) tries)"

text \<open>
  \<open>pattern.test(s)\<close>, with the pattern as it is afterwards.  Without \<open>g\<close> and \<open>y\<close> the
  search starts at 0 and \<open>lastIndex\<close> is left alone.  With \<open>g\<close> or \<open>y\<close> it starts at
  \<open>lastIndex\<close> (and fails at once when that is beyond the end of \<open>s\<close>); with \<open>y\<close> only
  that one position is tried; a match stores its end in \<open>lastIndex\<close> and a failure
  stores 0.
\<close>

definition test :: "RegExp \<Rightarrow> string \<Rightarrow> bool \<times> RegExp" where
  "test p s =
     (let start = (if global p \<or> sticky p then lastIndex p else 0);
          tries = (if sticky p then min 1 (Suc (length s) - start) else Suc (length s) - start)
      in case firstMatch (matchAt p) s start tries of
           None \<Rightarrow> (False, if global p \<or> sticky p then p\<lparr>lastIndex := 0\<rparr> else p)
         | Some e \<Rightarrow> (True, if global p \<or> sticky p then p\<lparr>lastIndex := e\<rparr> else p))"

text \<open>\<open>/word/\<close> for a word of letters and punctuation, at one position.\<close>

definition literal :: "string \<Rightarrow> string \<Rightarrow> nat \<Rightarrow> nat option" where
  "literal word s i = (if startsWith (drop i s) word then Some (i + length word) else None)"

text \<open>\<open>/word/i\<close> for a word of lower-case letters and punctuation, at one position.\<close>

definition word_ci :: "string \<Rightarrow> string \<Rightarrow> nat \<Rightarrow> nat option" where
  "word_ci word s i =
     (if startsWith (map lower (drop i s)) word then Some (i + length word) else None)"

text \<open>
  \<open>/first[_-]?second/i\<close> at one position: after \<open>first\<close> the separator is taken when
  it is there, and given back when \<open>second\<close> does not follow it.
\<close>

definition joined_ci :: "string \<Rightarrow> string \<Rightarrow> string \<Rightarrow> nat \<Rightarrow> nat option" where
  "joined_ci first second s i =
     (case word_ci first s i of
        None \<Rightarrow> None
      | Some j \<Rightarrow>
          if j < length s \<and> (s ! j = CHR ''_'' \<or> s ! j = CHR ''-'')
          then (case word_ci second s (Suc j) of
                  Some e \<Rightarrow> Some e
                | None \<Rightarrow> word_ci second s j)
          else word_ci second s j)"

text \<open>A pattern literal without the flags \<open>g\<close> and \<open>y\<close>, and one with the flag \<open>g\<close>.\<close>

definition regex :: "(string \<Rightarrow> nat \<Rightarrow> nat option) \<Rightarrow> RegExp" where
  "regex m = \<lparr>matchAt = m, global = False, sticky = False, lastIndex = 0\<rparr>"

definition regex_g :: "(string \<Rightarrow> nat \<Rightarrow> nat option) \<Rightarrow> RegExp" where
  "regex_g m = \<lparr>matchAt = m, global = True, sticky = False, lastIndex = 0\<rparr>"

definition DEFAULT_REDACT_PATTERNS :: "RegExp list" where
  "DEFAULT_REDACT_PATTERNS =
     [regex (word_ci ''password''),
      regex (word_ci ''token''),
      regex (joined_ci ''access'' ''token''),
      regex (joined_ci ''refresh'' ''token''),
      regex (joined_ci ''api'' ''key''),
      regex (word_ci ''secret''),
      regex (word_ci ''auth''),
      regex (word_ci ''bearer''),
      regex (word_ci ''authorization'')]"

text \<open>The sanitizer.  Its custom patterns are taken to be distinct objects.\<close>

record DataSanitizer =
  autoRedact :: bool
  customPatterns :: "RegExp list"
  redactedValue :: string

text \<open>\<open>new DataSanitizer()\<close>, with the default arguments.\<close>

definition new_DataSanitizer :: DataSanitizer where
  "new_DataSanitizer = \<lparr>autoRedact = True, customPatterns = [], redactedValue = ''[REDACTED]''\<rparr>"

text \<open>
  \<open>patterns.some((pattern) => pattern.test(key))\<close>: the patterns are tested in order up to
  the first that matches; the result comes with the patterns as they are afterwards.
\<close>

fun some_test :: "RegExp list \<Rightarrow> string \<Rightarrow> bool \<times> RegExp list" where
  "some_test [] key = (False, [])"
| "some_test (p # ps) key =
     (case test p key of
        (True, p') \<Rightarrow> (True, p' # ps)
      | (False, p') \<Rightarrow> (case some_test ps key of (found, ps') \<Rightarrow> (found, p' # ps')))"

text \<open>
  \<open>shouldRedact\<close>, with the sanitizer as it is afterwards.  The spread copies the
  references to the pattern objects, so \<open>test\<close> writes to the custom patterns held by the
  sanitizer.  The default patterns carry neither \<open>g\<close> nor \<open>y\<close> and are never written
  (\<open>defaults_unchanged\<close> below), so the custom patterns are all the state there is.
\<close>

definition shouldRedact :: "DataSanitizer \<Rightarrow> string \<Rightarrow> bool \<times> DataSanitizer" where
  "shouldRedact s key =
     (let patterns = (if autoRedact s then DEFAULT_REDACT_PATTERNS @ customPatterns s
                      else customPatterns s)
      in case some_test patterns key of
           (found, patterns') \<Rightarrow>
             (found,
              s\<lparr>customPatterns :=
                   (if autoRedact s then drop (length DEFAULT_REDACT_PATTERNS) patterns'
                    else patterns')\<rparr>))"

subsection \<open>The walk\<close>

text \<open>
  \<open>sanitized[key] = v\<close> on the object under construction, seen from the entries of the
  keys that come after \<open>key\<close>: the entry goes in front of them.  The key \<open>__proto__\<close>
  is the exception: assigning to it sets the prototype of \<open>sanitized\<close> (or does nothing,
  when \<open>v\<close> is neither an object nor \<open>null\<close>) and adds no own key.  A value is its own
  enumerable keys (that is what a later walk and \<open>JSON.stringify\<close> see), so the
  prototype is not recorded.
\<close>

definition setOwn :: "string \<Rightarrow> jsval \<Rightarrow> (string \<times> jsval) list \<Rightarrow> (string \<times> jsval) list" where
  "setOwn key v entries = (if key = ''__proto__'' then entries else (key, v) # entries)"

text \<open>
  \<open>value.map((item) => recurse(item))\<close>, items in order, the sanitizer threaded through
  the calls; an exception in a call leaves the \<open>map\<close>.
\<close>

fun mapItems ::
  "(DataSanitizer \<Rightarrow> jsval \<Rightarrow> (exn + jsval) \<times> DataSanitizer) \<Rightarrow> DataSanitizer \<Rightarrow> jsval list
   \<Rightarrow> (exn + jsval list) \<times> DataSanitizer" where
  "mapItems recurse s [] = (Inr [], s)"
| "mapItems recurse s (item # items) =
     (case recurse s item of
        (Inl e, s1) \<Rightarrow> (Inl e, s1)
      | (Inr y, s1) \<Rightarrow>
          (case mapItems recurse s1 items of
             (Inl e, s2) \<Rightarrow> (Inl e, s2)
           | (Inr ys, s2) \<Rightarrow> (Inr (y # ys), s2)))"

text \<open>
  The loop in the \<open>try\<close> block of the object case: for every own key, in order,
  \<open>shouldRedact(key)\<close> is asked and the key gets the redacted value or the result of the
  recursive call; an exception in a call leaves the loop.
\<close>

fun mapFields ::
  "(DataSanitizer \<Rightarrow> jsval \<Rightarrow> (exn + jsval) \<times> DataSanitizer) \<Rightarrow> DataSanitizer
   \<Rightarrow> (string \<times> jsval) list \<Rightarrow> (exn + (string \<times> jsval) list) \<times> DataSanitizer" where
  "mapFields recurse s [] = (Inr [], s)"
| "mapFields recurse s ((key, v) # rest) =
     (case shouldRedact s key of
        (True, s1) \<Rightarrow>
          (case mapFields recurse s1 rest of
             (Inl e, s2) \<Rightarrow> (Inl e, s2)
           | (Inr entries, s2) \<Rightarrow> (Inr (setOwn key (JStr (redactedValue s1)) entries), s2))
      | (False, s1) \<Rightarrow>
          (case recurse s1 v of
             (Inl e, s2) \<Rightarrow> (Inl e, s2)
           | (Inr v', s2) \<Rightarrow>
               (case mapFields recurse s2 rest of
                  (Inl e, s3) \<Rightarrow> (Inl e, s3)
                | (Inr entries, s3) \<Rightarrow> (Inr (setOwn key v' entries), s3))))"

text \<open>The array case returns the new array; an exception passes through.\<close>

definition arrayResult :: "exn + jsval list \<Rightarrow> exn + jsval" where
  "arrayResult r = (case r of Inl e \<Rightarrow> Inl e | Inr items \<Rightarrow> Inr (JArr items))"

text \<open>
  The object case returns the new object; its \<open>catch\<close> turns an exception from the loop
  into \<open>'[Circular Reference]'\<close>.
\<close>

definition objectResult :: "exn + (string \<times> jsval) list \<Rightarrow> exn + jsval" where
  "objectResult r =
     (case r of
        Inl e \<Rightarrow> Inr (JStr ''[Circular Reference]'')
      | Inr entries \<Rightarrow> Inr (JObj entries))"

definition errorObject :: "string \<Rightarrow> string \<Rightarrow> string option \<Rightarrow> jsval" where
  "errorObject name message stack =
     JObj [(''name'', JStr name), (''message'', JStr message),
           (''stack'', case stack of Some st \<Rightarrow> JStr st | None \<Rightarrow> JUndefined)]"

text \<open>
  \<open>sanitizeRecursive\<close>: the result (a value or an exception) and the sanitizer as the
  call leaves it.  \<open>maxDepth\<close> is a natural number (10 when the caller gives none), and
  the call stack is taken to be deep enough for \<open>maxDepth\<close> nested calls.
\<close>

function sanitizeRecursive ::
  "DataSanitizer \<Rightarrow> heap \<Rightarrow> jsval \<Rightarrow> nat \<Rightarrow> nat \<Rightarrow> (exn + jsval) \<times> DataSanitizer" where
  "sanitizeRecursive s h v maxDepth currentDepth =
     (if currentDepth \<ge> maxDepth then (Inr (JStr ''[Max Depth Reached]''), s)
      else (case v of
              JUndefined \<Rightarrow> (Inr v, s)
            | JNull \<Rightarrow> (Inr v, s)
            | JBool b \<Rightarrow> (Inr v, s)
            | JNum n \<Rightarrow> (Inr v, s)
            | JStr text \<Rightarrow> (Inr v, s)
            | JError name message stack \<Rightarrow> (Inr (errorObject name message stack), s)
            | JDate isoText \<Rightarrow>
                (case isoText of None \<Rightarrow> (Inl RangeError, s) | Some text \<Rightarrow> (Inr (JStr text), s))
            | JArr items \<Rightarrow>
                map_prod arrayResult id
                  (mapItems (\<lambda>s' item. sanitizeRecursive s' h item maxDepth (currentDepth + 1)) s items)
            | JObj entries \<Rightarrow>
                map_prod objectResult id
                  (mapFields (\<lambda>s' x. sanitizeRecursive s' h x maxDepth (currentDepth + 1)) s entries)
            | JRef a \<Rightarrow>
                (case deref h a of
                   CArr items \<Rightarrow>
                     map_prod arrayResult id
                       (mapItems (\<lambda>s' item. sanitizeRecursive s' h item maxDepth (currentDepth + 1)) s items)
                 | CObj entries \<Rightarrow>
                     map_prod objectResult id
                       (mapFields (\<lambda>s' x. sanitizeRecursive s' h x maxDepth (currentDepth + 1)) s entries))))"
  by pat_completeness auto
termination
  by (relation "measure (\<lambda>(s, h, v, maxDepth, currentDepth). maxDepth - currentDepth)") auto

subsection \<open>safeClone\<close>

text \<open>
  \<open>safeClone\<close> of utils/helpers.ts is the same walk without redaction; it reads no
  pattern and has no state.
\<close>

fun cloneItems :: "(jsval \<Rightarrow> exn + jsval) \<Rightarrow> jsval list \<Rightarrow> exn + jsval list" where
  "cloneItems recurse [] = Inr []"
| "cloneItems recurse (item # items) =
     (case recurse item of
        Inl e \<Rightarrow> Inl e
      | Inr y \<Rightarrow> (case cloneItems recurse items of Inl e \<Rightarrow> Inl e | Inr ys \<Rightarrow> Inr (y # ys)))"

fun cloneFields :: "(jsval \<Rightarrow> exn + jsval) \<Rightarrow> (string \<times> jsval) list \<Rightarrow> exn + (string \<times> jsval) list" where
  "cloneFields recurse [] = Inr []"
| "cloneFields recurse ((key, v) # rest) =
     (case recurse v of
        Inl e \<Rightarrow> Inl e
      | Inr v' \<Rightarrow>
          (case cloneFields recurse rest of
             Inl e \<Rightarrow> Inl e
           | Inr entries \<Rightarrow> Inr (setOwn key v' entries)))"

function safeClone :: "heap \<Rightarrow> jsval \<Rightarrow> nat \<Rightarrow> nat \<Rightarrow> exn + jsval" where
  "safeClone h obj maxDepth currentDepth =
     (if currentDepth \<ge> maxDepth then Inr (JStr ''[Max Depth Reached]'')
      else (case obj of
              JUndefined \<Rightarrow> Inr obj
            | JNull \<Rightarrow> Inr obj
            | JBool b \<Rightarrow> Inr obj
            | JNum n \<Rightarrow> Inr obj
            | JStr text \<Rightarrow> Inr obj
            | JError name message stack \<Rightarrow> Inr (errorObject name message stack)
            | JDate isoText \<Rightarrow> (case isoText of None \<Rightarrow> Inl RangeError | Some text \<Rightarrow> Inr (JStr text))
            | JArr items \<Rightarrow>
                arrayResult (cloneItems (\<lambda>item. safeClone h item maxDepth (currentDepth + 1)) items)
            | JObj entries \<Rightarrow>
                objectResult (cloneFields (\<lambda>x. safeClone h x maxDepth (currentDepth + 1)) entries)
            | JRef a \<Rightarrow>
                (case deref h a of
                   CArr items \<Rightarrow>
                     arrayResult (cloneItems (\<lambda>item. safeClone h item maxDepth (currentDepth + 1)) items)
                 | CObj entries \<Rightarrow>
                     objectResult (cloneFields (\<lambda>x. safeClone h x maxDepth (currentDepth + 1)) entries))))"
  by pat_completeness auto
termination
  by (relation "measure (\<lambda>(h, obj, maxDepth, currentDepth). maxDepth - currentDepth)") auto

text \<open>\<open>sanitize\<close>: the result and the sanitizer as the call leaves it.\<close>

definition sanitize ::
  "DataSanitizer \<Rightarrow> heap \<Rightarrow> jsval \<Rightarrow> nat \<Rightarrow> (exn + jsval) \<times> DataSanitizer" where
  "sanitize s h data maxDepth =
     (if \<not> autoRedact s \<and> length (customPatterns s) = 0 then (safeClone h data maxDepth 0, s)
      else sanitizeRecursive s h data maxDepth 0)"

text \<open>
  \<open>sanitize(sanitize(x))\<close> on one sanitizer: the second call meets the patterns as the
  first call left them.
\<close>

definition sanitize_twice ::
  "DataSanitizer \<Rightarrow> heap \<Rightarrow> jsval \<Rightarrow> nat \<Rightarrow> (exn + jsval) \<times> DataSanitizer" where
  "sanitize_twice s h x maxDepth =
     (case sanitize s h x maxDepth of
        (Inl e, s1) \<Rightarrow> (Inl e, s1)
      | (Inr y, s1) \<Rightarrow> sanitize s1 h y maxDepth)"

subsection \<open>Vocabulary for the facts below\<close>

text \<open>No custom pattern carries the flag \<open>g\<close> or \<open>y\<close>.\<close>

definition stateless :: "DataSanitizer \<Rightarrow> bool" where
  "stateless s = list_all (\<lambda>p. \<not> (global p \<or> sticky p)) (customPatterns s)"

text \<open>Whether \<open>shouldRedact(key)\<close> answers true.\<close>

definition redacts :: "DataSanitizer \<Rightarrow> string \<Rightarrow> bool" where
  "redacts s key = fst (shouldRedact s key)"

text \<open>
  A self-referencing object \<open>o\<close> with \<open>o[key] = o\<close>, unrolled \<open>n\<close> levels with the
  depth marker innermost.
\<close>

fun unrolled :: "string \<Rightarrow> nat \<Rightarrow> jsval" where
  "unrolled key 0 = JStr ''[Max Depth Reached]''"
| "unrolled key (Suc n) = JObj [(key, unrolled key n)]"

text \<open>The strings that occur as values anywhere in a sanitized value.\<close>

fun stringsOf :: "jsval \<Rightarrow> string list" where
  "stringsOf (JStr text) = [text]"
| "stringsOf (JArr items) = concat (map stringsOf items)"
| "stringsOf (JObj entries) = concat (map (\<lambda>(key, v). stringsOf v) entries)"
| "stringsOf v = []"

text \<open>
  Where a second pass meets the objects that the first pass made from \<open>Error\<close>
  instances: \<open>errorsSettled\<close> holds when every \<open>Error\<close> instance that the walk reaches
  has a level to spare below it (its depth plus one is below \<open>maxDepth\<close>) and none of the
  keys \<open>name\<close>, \<open>message\<close>, \<open>stack\<close> is redacted.  It follows the walk: it stops at
  \<open>maxDepth\<close> and does not look under a redacted key.
\<close>

function errorsSettled :: "DataSanitizer \<Rightarrow> heap \<Rightarrow> jsval \<Rightarrow> nat \<Rightarrow> nat \<Rightarrow> bool" where
  "errorsSettled s h v maxDepth currentDepth =
     (if currentDepth \<ge> maxDepth then True
      else (case v of
              JError name message stack \<Rightarrow>
                currentDepth + 1 < maxDepth
                \<and> \<not> redacts s ''name'' \<and> \<not> redacts s ''message'' \<and> \<not> redacts s ''stack''
            | JArr items \<Rightarrow>
                list_all (\<lambda>item. errorsSettled s h item maxDepth (currentDepth + 1)) items
            | JObj entries \<Rightarrow>
                list_all (\<lambda>(key, x). if redacts s key then True
                                       else errorsSettled s h x maxDepth (currentDepth + 1)) entries
            | JRef a \<Rightarrow>
                (case deref h a of
                   CArr items \<Rightarrow>
                     list_all (\<lambda>item. errorsSettled s h item maxDepth (currentDepth + 1)) items
                 | CObj entries \<Rightarrow>
                     list_all (\<lambda>(key, x). if redacts s key then True
                                            else errorsSettled s h x maxDepth (currentDepth + 1)) entries)
            | _ \<Rightarrow> True))"
  by pat_completeness auto
termination
  by (relation "measure (\<lambda>(s, h, v, maxDepth, currentDepth). maxDepth - currentDepth)") auto

text \<open>
  An input from which the marker of the \<open>catch\<close> cannot come: within the levels the walk
  visits, every \<open>Date\<close> is valid (so that nothing throws) and no text is
  \<open>'[Circular Reference]'\<close> already.  Nothing is asked about cycles.
\<close>

function markerFree :: "heap \<Rightarrow> jsval \<Rightarrow> nat \<Rightarrow> nat \<Rightarrow> bool" where
  "markerFree h v maxDepth currentDepth =
     (if currentDepth \<ge> maxDepth then True
      else (case v of
              JStr text \<Rightarrow> text \<noteq> ''[Circular Reference]''
            | JError name message stack \<Rightarrow>
                name \<noteq> ''[Circular Reference]'' \<and> message \<noteq> ''[Circular Reference]''
                \<and> stack \<noteq> Some ''[Circular Reference]''
            | JDate isoText \<Rightarrow>
                (case isoText of None \<Rightarrow> False | Some text \<Rightarrow> text \<noteq> ''[Circular Reference]'')
            | JArr items \<Rightarrow>
                list_all (\<lambda>item. markerFree h item maxDepth (currentDepth + 1)) items
            | JObj entries \<Rightarrow>
                list_all (\<lambda>(key, x). markerFree h x maxDepth (currentDepth + 1)) entries
            | JRef a \<Rightarrow>
                (case deref h a of
                   CArr items \<Rightarrow>
                     list_all (\<lambda>item. markerFree h item maxDepth (currentDepth + 1)) items
                 | CObj entries \<Rightarrow>
                     list_all (\<lambda>(key, x). markerFree h x maxDepth (currentDepth + 1)) entries)
            | _ \<Rightarrow> True))"
  by pat_completeness auto
termination
  by (relation "measure (\<lambda>(h, v, maxDepth, currentDepth). maxDepth - currentDepth)") auto

text \<open>How deep objects and arrays are nested in a value.\<close>

fun nesting :: "jsval \<Rightarrow> nat" where
  "nesting (JArr items) = Suc (foldr max (map nesting items) 0)"
| "nesting (JObj entries) = Suc (foldr max (map (\<lambda>(key, v). nesting v) entries) 0)"
| "nesting v = 0"
section \<open>Fingerprints (core/fingerprint.ts)\<close>

subsection \<open>Character classes\<close>

definition isHex :: "char \<Rightarrow> bool" where
  "isHex c = (isDigit c \<or> (97 \<le> (of_char c :: nat) \<and> (of_char c :: nat) \<le> 102)
                        \<or> (65 \<le> (of_char c :: nat) \<and> (of_char c :: nat) \<le> 70))"

text \<open>\<open>\w\<close>: letters, digits and the underscore.\<close>

definition isWord :: "char \<Rightarrow> bool" where
  "isWord c = (isDigit c \<or> (97 \<le> (of_char c :: nat) \<and> (of_char c :: nat) \<le> 122)
                         \<or> (65 \<le> (of_char c :: nat) \<and> (of_char c :: nat) \<le> 90)
                         \<or> c = CHR ''_'')"

subsection \<open>Global replacement\<close>

text \<open>
  \<open>message.replace(/.../g, replacement)\<close>.  A matcher is given the character before the
  current position (for \<open>\b\<close>) and the text from the current position on, and answers
  with the length of the match that starts here, if there is one.  The scan goes left to
  right; after a match it goes on behind the match.  No pattern below matches the empty
  string.
\<close>

type_synonym matcher = "char option \<Rightarrow> string \<Rightarrow> nat option"

fun replaceAll :: "matcher \<Rightarrow> string \<Rightarrow> char option \<Rightarrow> string \<Rightarrow> string" where
  "replaceAll m replacement prev [] = []"
| "replaceAll m replacement prev (c # cs) =
     (case m prev (c # cs) of
        Some (Suc k) \<Rightarrow>
          replacement @ replaceAll m replacement (Some (last (c # take k cs))) (drop k cs)
      | _ \<Rightarrow> c # replaceAll m replacement (Some c) cs)"

text \<open>
  A pattern of fixed length is written as a template with one character per position:
  \<open>h\<close> stands for \<open>[0-9a-f]\<close> under the \<open>i\<close> flag, \<open>d\<close> for \<open>\d\<close>, and any other
  character for itself.
\<close>

definition classOf :: "char \<Rightarrow> char \<Rightarrow> bool" where
  "classOf t c = (if t = CHR ''h'' then isHex c else if t = CHR ''d'' then isDigit c else c = t)"

fun fitsShape :: "string \<Rightarrow> string \<Rightarrow> bool" where
  "fitsShape [] s = True"
| "fitsShape (t # ts) [] = False"
| "fitsShape (t # ts) (c # cs) = (classOf t c \<and> fitsShape ts cs)"

definition matchShape :: "string \<Rightarrow> matcher" where
  "matchShape shape prev s = (if fitsShape shape s then Some (length shape) else None)"

text \<open>\<open>/[0-9a-f]{8}-[0-9a-f]{4}-[0-9a-f]{4}-[0-9a-f]{4}-[0-9a-f]{12}/gi\<close>\<close>

definition uuidShape :: string where
  "uuidShape = ''hhhhhhhh-hhhh-hhhh-hhhh-hhhhhhhhhhhh''"

text \<open>
  \<open>/\b\d+\b/g\<close>: the longest run of digits from here, with no word character before it
  and none after it (a shorter run would be followed by a digit).
\<close>

definition matchNumber :: matcher where
  "matchNumber prev s =
     (let ds = takeWhile isDigit s;
          after = dropWhile isDigit s
      in if ds \<noteq> []
            \<and> (case prev of None \<Rightarrow> True | Some p \<Rightarrow> \<not> isWord p)
            \<and> (case after of [] \<Rightarrow> True | c # _ \<Rightarrow> \<not> isWord c)
         then Some (length ds) else None)"

text \<open>\<open>/https?:\/\/[^\s"']+/g\<close>\<close>

definition isUrlChar :: "char \<Rightarrow> bool" where
  "isUrlChar c = (\<not> isWhiteSpace c \<and> (of_char c :: nat) \<noteq> 34 \<and> (of_char c :: nat) \<noteq> 39)"

definition matchURL :: matcher where
  "matchURL prev s =
     (let scheme = (if startsWith s ''https://'' then Some 8
                    else if startsWith s ''http://'' then Some 7 else None)
      in case scheme of
           None \<Rightarrow> None
         | Some n \<Rightarrow>
             (let body = takeWhile isUrlChar (drop n s)
              in if body = [] then None else Some (n + length body)))"

text \<open>
  \<open>/\/[\w\-./@]+\.(js|ts|jsx|tsx|mjs|cjs)/g\<close>: after the slash the class is matched
  greedily and given back one character at a time until a dot and an extension follow;
  the alternatives are tried in the order written.
\<close>

definition isPathChar :: "char \<Rightarrow> bool" where
  "isPathChar c = (isWord c \<or> c = CHR ''-'' \<or> c = CHR ''.'' \<or> c = CHR ''/'' \<or> c = CHR ''@'')"

definition extensionAt :: "string \<Rightarrow> string option" where
  "extensionAt s = find (startsWith s) [''js'', ''ts'', ''jsx'', ''tsx'', ''mjs'', ''cjs'']"

definition dotExtension :: "string \<Rightarrow> nat \<Rightarrow> nat option" where
  "dotExtension r n =
     (if n < length r \<and> r ! n = CHR ''.''
      then (case extensionAt (drop (Suc n) r) of
              Some e \<Rightarrow> Some (n + 1 + length e)
            | None \<Rightarrow> None)
      else None)"

fun giveBack :: "string \<Rightarrow> nat \<Rightarrow> nat option" where
  "giveBack r 0 = None"
| "giveBack r (Suc k) =
     (case dotExtension r (Suc k) of
        Some len \<Rightarrow> Some len
      | None \<Rightarrow> giveBack r k)"

definition matchFile :: matcher where
  "matchFile prev s =
     (case s of
        [] \<Rightarrow> None
      | c # r \<Rightarrow>
          if c = CHR ''/''
          then (case giveBack r (length (takeWhile isPathChar r)) of
                  Some len \<Rightarrow> Some (Suc len)
                | None \<Rightarrow> None)
          else None)"

text \<open>\<open>/\d{4}-\d{2}-\d{2}T\d{2}:\d{2}:\d{2}/g\<close>\<close>

definition timestampShape :: string where
  "timestampShape = ''dddd-dd-ddTdd:dd:dd''"

text \<open>\<open>/0x[0-9a-f]+/gi\<close>\<close>

definition matchAddr :: matcher where
  "matchAddr prev s =
     (case s of
        a # b # r \<Rightarrow>
          if a = CHR ''0'' \<and> (b = CHR ''x'' \<or> b = CHR ''X'')
          then (let hs = takeWhile isHex r
                in if hs = [] then None else Some (2 + length hs))
          else None
      | _ \<Rightarrow> None)"

text \<open>\<open>/\s+/g\<close>\<close>

definition matchSpace :: matcher where
  "matchSpace prev s =
     (let ws = takeWhile isWhiteSpace s
      in if ws = [] then None else Some (length ws))"

definition trim :: "string \<Rightarrow> string" where
  "trim s = rev (dropWhile isWhiteSpace (rev (dropWhile isWhiteSpace s)))"

definition replaceUUIDs :: "string \<Rightarrow> string" where
  "replaceUUIDs = replaceAll (matchShape uuidShape) ''<UUID>'' None"

definition replaceNumbers :: "string \<Rightarrow> string" where
  "replaceNumbers = replaceAll matchNumber ''<NUM>'' None"

definition afterNumbers :: "string \<Rightarrow> string" where
  "afterNumbers s =
     trim (replaceAll matchSpace '' '' None
       (replaceAll matchAddr ''<ADDR>'' None
         (replaceAll (matchShape timestampShape) ''<TIMESTAMP>'' None
           (replaceAll matchFile ''<FILE>'' None
             (replaceAll matchURL ''<URL>'' None s)))))"

definition normalizeMessage :: "string \<Rightarrow> string" where
  "normalizeMessage message = afterNumbers (replaceNumbers (replaceUUIDs message))"

subsection \<open>Hash\<close>

text \<open>
  \<open>hash = (hash * 33) ^ str.charCodeAt(i)\<close>: the product is exact in a double and
  \<open>^\<close> takes it modulo \<open>2^32\<close>, so the loop is arithmetic on 32-bit words; \<open>hash >>> 0\<close>
  reads the word as unsigned and \<open>toString(16).padStart(8, '0')\<close> writes its eight
  hexadecimal digits.
\<close>

definition hashStep :: "32 word \<Rightarrow> char \<Rightarrow> 32 word" where
  "hashStep hash c = (hash * 33) XOR of_nat (of_char c)"

definition hexDigit :: "nat \<Rightarrow> char" where
  "hexDigit d = ''0123456789abcdef'' ! d"

text \<open>The \<open>i\<close>-th group of four bits, counted from the low end.\<close>

definition nibble :: "nat \<Rightarrow> 32 word \<Rightarrow> 32 word" where
  "nibble i w = drop_bit (4 * i) w AND 15"

definition hex8 :: "32 word \<Rightarrow> string" where
  "hex8 w = map (\<lambda>i. hexDigit (unat (nibble i w))) [7, 6, 5, 4, 3, 2, 1, 0]"

text \<open>The value of \<open>hash\<close> after the loop has read \<open>str\<close>.\<close>

definition hashState :: "string \<Rightarrow> 32 word" where
  "hashState str = foldl hashStep 5381 str"

definition hashString :: "string \<Rightarrow> string" where
  "hashString str = hex8 (hashState str)"

subsection \<open>generateFingerprint\<close>

record JsError =
  errName :: string
  errMessage :: string
  errStack :: "string option"

record FingerprintConfig =
  useMessage :: "bool option"
  useType :: "bool option"
  useStackFrame :: "bool option"
  customFingerprint :: "(JsError \<Rightarrow> ErrorEvent \<Rightarrow> string) option"

text \<open>\<open>parts.join('|')\<close>\<close>

fun join :: "string list \<Rightarrow> string" where
  "join [] = []"
| "join [p] = p"
| "join (p # q # ps) = p @ ''|'' @ join (q # ps)"

text \<open>
  \<open>generateFingerprint\<close>.  The claims compare fingerprints of errors with the same
  stack, so \<open>extractFirstMeaningfulFrame\<close> is taken as the argument \<open>frameOf\<close> (from the
  stack text to the frame, \<open>None\<close> for \<open>null\<close>); everything else is the source's.
  A missing \<open>config\<close> is \<open>None\<close>; \<open>config?.useType !== false\<close> is false only for an
  explicit \<open>false\<close>; \<open>error.name || 'Error'\<close> replaces the empty name (the fields of the error are
  \<open>errName\<close>, \<open>errMessage\<close>, \<open>errStack\<close>); an empty stack
  or an empty frame is falsy.
\<close>

text \<open>\<open>error.name || 'Error'\<close>\<close>

definition typeName :: "JsError \<Rightarrow> string" where
  "typeName err = (if errName err = [] then ''Error'' else errName err)"

definition generateFingerprint ::
  "(string \<Rightarrow> string option) \<Rightarrow> JsError \<Rightarrow> ErrorEvent \<Rightarrow> FingerprintConfig option \<Rightarrow> string" where
  "generateFingerprint frameOf err event cfg =
     (case (case cfg of None \<Rightarrow> None | Some c \<Rightarrow> customFingerprint c) of
        Some custom \<Rightarrow> custom err event
      | None \<Rightarrow>
          (let typePart =
                 (if (case cfg of None \<Rightarrow> None | Some c \<Rightarrow> useType c) \<noteq> Some False
                  then [typeName err] else []);
               messagePart =
                 (if (case cfg of None \<Rightarrow> None | Some c \<Rightarrow> useMessage c) \<noteq> Some False
                  then [normalizeMessage (errMessage err)] else []);
               framePart =
                 (if (case cfg of None \<Rightarrow> None | Some c \<Rightarrow> useStackFrame c) \<noteq> Some False
                  then (case errStack err of
                          None \<Rightarrow> []
                        | Some st \<Rightarrow>
                            if st = [] then []
                            else (case frameOf st of
                                    None \<Rightarrow> []
                                  | Some frame \<Rightarrow> if frame = [] then [] else [frame]))
                  else [])
           in hashString (join (typePart @ messagePart @ framePart))))"

subsection \<open>Vocabulary for messages that differ in one place\<close>

definition wholeNumber :: "string \<Rightarrow> bool" where
  "wholeNumber ds = (ds \<noteq> [] \<and> list_all isDigit ds)"

definition isUUID :: "string \<Rightarrow> bool" where
  "isUUID u = (length u = 36 \<and> fitsShape uuidShape u)"

text \<open>A character that can stand next to a number without joining it to a word or a UUID.\<close>

definition separator :: "char \<Rightarrow> bool" where
  "separator c = (\<not> isWord c \<and> c \<noteq> CHR ''-'')"

definition delimited :: "string \<Rightarrow> string \<Rightarrow> bool" where
  "delimited pre post =
     ((case pre of [] \<Rightarrow> True | _ \<Rightarrow> separator (last pre))
      \<and> (case post of [] \<Rightarrow> True | c # _ \<Rightarrow> separator c))"

definition uuidNeutral :: "char \<Rightarrow> bool" where
  "uuidNeutral c = (\<not> isHex c \<and> c \<noteq> CHR ''-'')"

definition noCustom :: "FingerprintConfig option \<Rightarrow> bool" where
  "noCustom cfg = ((case cfg of None \<Rightarrow> None | Some c \<Rightarrow> customFingerprint c) = None)"

text \<open>The type name is part of the fingerprint (\<open>config?.useType !== false\<close>).\<close>

definition typeUsed :: "FingerprintConfig option \<Rightarrow> bool" where
  "typeUsed cfg = ((case cfg of None \<Rightarrow> None | Some c \<Rightarrow> useType c) \<noteq> Some False)"

definition jsError :: "string \<Rightarrow> string \<Rightarrow> JsError" where
  "jsError n m = \<lparr>errName = n, errMessage = m, errStack = None\<rparr>"

section \<open>Tracker (core/tracker.ts, core/config.ts)\<close>

text \<open>The configuration fields that \<open>init\<close>, \<open>shutdown\<close> and the flush read.\<close>

record Config =
  cfg_endpoint :: string
  cfg_enabled :: bool
  cfg_consoleEnabled :: bool
  cfg_maxQueueSize :: int
  cfg_flushInterval :: int
  cfg_retryAttempts :: nat
  cfg_sendOnErrorOnly :: bool
  cfg_debounceMs :: int

definition defaultConfig :: Config where
  "defaultConfig =
     \<lparr>cfg_endpoint = [], cfg_enabled = True, cfg_consoleEnabled = True, cfg_maxQueueSize = 50,
      cfg_flushInterval = 10000, cfg_retryAttempts = 3, cfg_sendOnErrorOnly = True,
      cfg_debounceMs = 100\<rparr>"

text \<open>A partial configuration: \<open>None\<close> is a key the user did not give.\<close>

record PartialConfig =
  user_endpoint :: "string option"
  user_enabled :: "bool option"
  user_consoleEnabled :: "bool option"
  user_maxQueueSize :: "int option"
  user_flushInterval :: "int option"
  user_retryAttempts :: "nat option"
  user_sendOnErrorOnly :: "bool option"
  user_debounceMs :: "int option"

definition orDefault :: "'a option \<Rightarrow> 'a \<Rightarrow> 'a" where
  "orDefault given dflt = (case given of Some v \<Rightarrow> v | None \<Rightarrow> dflt)"

definition mergeConfig :: "PartialConfig \<Rightarrow> Config" where
  "mergeConfig userConfig =
     \<lparr>cfg_endpoint = orDefault (user_endpoint userConfig) (cfg_endpoint defaultConfig),
      cfg_enabled = orDefault (user_enabled userConfig) (cfg_enabled defaultConfig),
      cfg_consoleEnabled = orDefault (user_consoleEnabled userConfig) (cfg_consoleEnabled defaultConfig),
      cfg_maxQueueSize = orDefault (user_maxQueueSize userConfig) (cfg_maxQueueSize defaultConfig),
      cfg_flushInterval = orDefault (user_flushInterval userConfig) (cfg_flushInterval defaultConfig),
      cfg_retryAttempts = orDefault (user_retryAttempts userConfig) (cfg_retryAttempts defaultConfig),
      cfg_sendOnErrorOnly = orDefault (user_sendOnErrorOnly userConfig) (cfg_sendOnErrorOnly defaultConfig),
      cfg_debounceMs = orDefault (user_debounceMs userConfig) (cfg_debounceMs defaultConfig)\<rparr>"

text \<open>
  The tracker.  A timer or handler field is \<open>True\<close> while the timer is armed or the
  handler installed: \<open>flushIntervalId\<close>, \<open>sendDebounceTimer\<close>,
  \<open>cleanupWindowHandlers\<close> (the window handlers and their cleanup function),
  \<open>consoleIntercepted\<close> (the patched \<open>console\<close> methods of integrations/console.ts) and
  \<open>breadcrumbSweep\<close> (the prune interval of the breadcrumb manager).
\<close>

record ErrorTracker =
  isInitialized :: bool
  config :: Config
  eventQueue :: ErrorQueue
  transport :: Transport
  flushIntervalId :: bool
  sendDebounceTimer :: bool
  cleanupWindowHandlers :: bool
  consoleIntercepted :: bool
  breadcrumbSweep :: bool

text \<open>
  The exported singleton before its first \<open>init\<close>: not initialized, nothing armed.  Its
  queue and transport are not assigned yet; the record holds the storage cell the first
  queue will restore from.
\<close>

definition new_ErrorTracker :: "stored \<Rightarrow> ErrorTracker" where
  "new_ErrorTracker st =
     \<lparr>isInitialized = False, config = defaultConfig,
      eventQueue = \<lparr>queue = [], maxSize = 0, store = st\<rparr>,
      transport = new_Transport [] 0,
      flushIntervalId = False, sendDebounceTimer = False, cleanupWindowHandlers = False,
      consoleIntercepted = False, breadcrumbSweep = False\<rparr>"

text \<open>
  The end of \<open>sendQueuedEvents\<close>, after \<open>await this.transport.send(events)\<close>: on success
  \<open>remove\<close> when \<open>response.eventIds\<close> is there, \<open>clear\<close> otherwise; on failure the queue
  is left alone.  It acts on the queue the tracker holds when the await returns.
\<close>

definition applyResponse :: "TransportResponse \<Rightarrow> ErrorQueue \<Rightarrow> ErrorQueue" where
  "applyResponse rsp q =
     (if success rsp then
        (case eventIds rsp of
           Some ids \<Rightarrow> remove q ids
         | None \<Rightarrow> clear q)
      else q)"

text \<open>
  \<open>sendQueuedEvents\<close> run to its end.  The batch is read first; while the send is
  awaited the application goes on capturing, and \<open>arrivals\<close> are the events it enqueues
  in that time (with \<open>add\<close>); then the response is applied.  With an empty queue the
  function returns before any await.
\<close>

definition sendQueuedEvents ::
  "(nat \<Rightarrow> fetchResult) \<Rightarrow> (nat \<Rightarrow> real) \<Rightarrow> ErrorEvent list \<Rightarrow> ErrorTracker \<Rightarrow> ErrorTracker" where
  "sendQueuedEvents fetch rnd arrivals tr =
     (let events = getAll (eventQueue tr)
      in if length events = 0 then tr
         else (let out = send (transport tr) fetch rnd events;
                   during = add_all (eventQueue tr) arrivals
               in tr\<lparr>eventQueue := applyResponse (response out) during\<rparr>))"

text \<open>
  \<open>shutdown\<close> is an \<open>async\<close> function.  A call runs its body up to the first \<open>await\<close>
  that is reached and returns a promise; the rest runs in a later turn of the event loop,
  after the caller's synchronous code has finished.  The first await of \<open>shutdown\<close> is
  \<open>await this.sendQueuedEvents()\<close>, reached after the timers and handlers are released
  and after \<open>sendQueuedEvents\<close> has read its batch (and started the send when the batch is
  not empty).  A suspended call is one of:
\<close>

datatype suspended =
    FinalFlushSkipped
  | FinalFlushInFlight "ErrorEvent list" Transport

text \<open>The synchronous part of \<open>shutdown\<close>; \<open>None\<close> when it returns at once.\<close>

definition shutdown_sync :: "ErrorTracker \<Rightarrow> ErrorTracker \<times> suspended option" where
  "shutdown_sync tr =
     (if \<not> isInitialized tr then (tr, None)
      else (let tr1 = tr\<lparr>flushIntervalId := False, sendDebounceTimer := False,
                          cleanupWindowHandlers := False, consoleIntercepted := False,
                          breadcrumbSweep := False\<rparr>;
                events = getAll (eventQueue tr1)
            in (tr1, Some (if length events = 0 then FinalFlushSkipped
                           else FinalFlushInFlight events (transport tr1)))))"

text \<open>
  The rest of \<open>shutdown\<close>, run when the final flush has settled: the response is applied
  to \<open>this.queue\<close> as it is then, and \<open>this.isInitialized = false\<close>.
\<close>

definition shutdown_resume ::
  "(nat \<Rightarrow> fetchResult) \<Rightarrow> (nat \<Rightarrow> real) \<Rightarrow> suspended \<Rightarrow> ErrorTracker \<Rightarrow> ErrorTracker" where
  "shutdown_resume fetch rnd s tr =
     (case s of
        FinalFlushSkipped \<Rightarrow> tr\<lparr>isInitialized := False\<rparr>
      | FinalFlushInFlight events via \<Rightarrow>
          (let out = send via fetch rnd events
           in tr\<lparr>eventQueue := applyResponse (response out) (eventQueue tr),
                 isInitialized := False\<rparr>))"

text \<open>\<open>await tracker.shutdown()\<close> with nothing else running in between.\<close>

definition shutdown :: "(nat \<Rightarrow> fetchResult) \<Rightarrow> (nat \<Rightarrow> real) \<Rightarrow> ErrorTracker \<Rightarrow> ErrorTracker" where
  "shutdown fetch rnd tr =
     (case shutdown_sync tr of
        (tr1, None) \<Rightarrow> tr1
      | (tr1, Some s) \<Rightarrow> shutdown_resume fetch rnd s tr1)"

text \<open>
  \<open>init\<close> is synchronous.  The state is the tracker and the suspended \<open>shutdown\<close> calls
  that have not resumed yet.  \<open>this.shutdown()\<close> is called without \<open>await\<close>, so only its
  synchronous part runs before the rest of \<open>init\<close>.
\<close>

definition init ::
  "PartialConfig \<Rightarrow> int \<Rightarrow> ErrorTracker \<times> suspended list \<Rightarrow> ErrorTracker \<times> suspended list" where
  "init userConfig now w =
     (let (tr, pending) = w;
          (tr1, pending1) =
            (if isInitialized tr
             then (case shutdown_sync tr of
                     (t1, None) \<Rightarrow> (t1, pending)
                   | (t1, Some s) \<Rightarrow> (t1, pending @ [s]))
             else (tr, pending));
          cfg = mergeConfig userConfig;
          tr2 = tr1\<lparr>config := cfg,
                     breadcrumbSweep := True,
                     eventQueue := new_ErrorQueue (cfg_maxQueueSize cfg) now (store (eventQueue tr1)),
                     transport := new_Transport (cfg_endpoint cfg) (cfg_retryAttempts cfg),
                     cleanupWindowHandlers := True,
                     consoleIntercepted := (if cfg_consoleEnabled cfg then True else consoleIntercepted tr1),
                     flushIntervalId := (if \<not> cfg_sendOnErrorOnly cfg then True else flushIntervalId tr1),
                     isInitialized := True\<rparr>
      in (tr2, pending1))"

text \<open>The event loop resumes the suspended calls, oldest first.\<close>

fun resume_all ::
  "(nat \<Rightarrow> fetchResult) \<Rightarrow> (nat \<Rightarrow> real) \<Rightarrow> ErrorTracker \<times> suspended list \<Rightarrow> ErrorTracker \<times> suspended list" where
  "resume_all fetch rnd (tr, []) = (tr, [])"
| "resume_all fetch rnd (tr, s # rest) = resume_all fetch rnd (shutdown_resume fetch rnd s tr, rest)"

definition noConfig :: PartialConfig where
  "noConfig =
     \<lparr>user_endpoint = None, user_enabled = None, user_consoleEnabled = None,
      user_maxQueueSize = None, user_flushInterval = None, user_retryAttempts = None,
      user_sendOnErrorOnly = None, user_debounceMs = None\<rparr>"

definition withEndpoint :: "string \<Rightarrow> PartialConfig" where
  "withEndpoint url = noConfig\<lparr>user_endpoint := Some url\<rparr>"

section \<open>Queue: facts\<close>

lemma queue_add:
  "queue (add q e) = (if int (length (queue q)) + 1 > maxSize q then tl (queue q @ [e]) else queue q @ [e])"
  by (simp add: add_def persist_def Let_def)

lemma maxSize_add [simp]: "maxSize (add q e) = maxSize q"
  by (simp add: add_def persist_def Let_def)

lemma maxSize_add_all [simp]: "maxSize (add_all q es) = maxSize q"
  unfolding add_all_def by (induction es arbitrary: q) simp_all

lemma add_all_snoc: "add_all q (es @ [e]) = add (add_all q es) e"
  by (simp add: add_all_def)

lemma tl_drop_snoc: "n \<le> length xs \<Longrightarrow> tl (drop n xs @ [e]) = drop (Suc n) (xs @ [e])"
proof (cases "n < length xs")
  case True
  then have "drop n xs \<noteq> []" by simp
  then have "tl (drop n xs @ [e]) = tl (drop n xs) @ [e]" by simp
  with True show ?thesis by (simp add: tl_drop drop_Suc)
next
  case False
  assume "n \<le> length xs"
  with False have "n = length xs" by simp
  then show ?thesis by simp
qed

lemma queue_add_all_last:
  assumes "maxSize q = int M" and "length (queue q) \<le> M"
  shows "queue (add_all q es) = drop (length (queue q @ es) - M) (queue q @ es)"
proof (induction es rule: rev_induct)
  case Nil
  with assms show ?case by (simp add: add_all_def)
next
  case (snoc e es)
  let ?all = "queue q @ es"
  have len: "length (queue (add_all q es)) = min M (length ?all)"
    using snoc by simp
  show ?case
  proof (cases "length ?all < M")
    case True
    then show ?thesis
      using snoc assms(1) by (simp add: add_all_snoc queue_add)
  next
    case False
    then have "int (length (queue (add_all q es))) + 1 > maxSize (add_all q es)"
      using len assms(1) by simp
    then have "queue (add_all q (es @ [e])) = tl (drop (length ?all - M) ?all @ [e])"
      using snoc by (simp add: add_all_snoc queue_add)
    also have "\<dots> = drop (Suc (length ?all - M)) (?all @ [e])"
      by (rule tl_drop_snoc) simp
    also have "Suc (length ?all - M) = length (queue q @ (es @ [e])) - M"
      using False by simp
    finally show ?thesis by simp
  qed
qed

lemma length_queue_add_all:
  assumes "maxSize q = int M" and "length (queue q) \<le> M"
  shows "length (queue (add_all q es)) = min M (length (queue q) + length es)"
  using queue_add_all_last [OF assms, of es] by simp

text \<open>
  Started from a queue that holds at most \<open>M\<close> entries (an empty one included), more
  than \<open>M\<close> calls of \<open>add\<close> leave exactly the last \<open>M\<close> added events, oldest first, and
  after every call of the sequence the queue holds at most \<open>M\<close> entries.
\<close>

lemma queue_bound_from_small:
  assumes "maxSize q = int M" and "length (queue q) \<le> M" and "M < length es"
  shows "queue (add_all q es) = drop (length es - M) es
         \<and> (\<forall>k \<le> length es. length (queue (add_all q (take k es))) \<le> M)"
proof -
  have "queue (add_all q es) = drop (length (queue q) + length es - M) (queue q @ es)"
    using queue_add_all_last [OF assms(1,2), of es] by simp
  also have "\<dots> = drop (length es - M) es"
    using assms(2,3) by simp
  finally have a: "queue (add_all q es) = drop (length es - M) es" .
  have "length (queue (add_all q (take k es))) \<le> M" for k
    using length_queue_add_all [OF assms(1,2), of "take k es"] by simp
  with a show ?thesis by simp
qed

text \<open>
  C9. The constructor restores whatever array the store holds, filtered by age only, so a
  queue can start with more than \<open>maxSize\<close> entries; \<open>add\<close> then removes one entry per
  call and the length never comes down to \<open>maxSize\<close>.  With \<open>maxSize = 1\<close> and two
  stored events, two calls of \<open>add\<close> leave two entries, not the last one added.
\<close>

theorem queue_bound_restored_oversize:
  "queue (add_all (new_ErrorQueue 1 1000 (Events [ev ''a'' 900, ev ''b'' 950]))
                  [ev ''c'' 1000, ev ''d'' 1001])
     = [ev ''c'' 1000, ev ''d'' 1001]
   \<and> size_queue (add (new_ErrorQueue 1 1000 (Events [ev ''a'' 900, ev ''b'' 950])) (ev ''c'' 1000)) = 2
   \<and> maxSize (new_ErrorQueue 1 1000 (Events [ev ''a'' 900, ev ''b'' 950])) = 1"
  by (simp add: add_all_def add_def persist_def new_ErrorQueue_def restore_def ev_def
        MAX_AGE_MS_def size_queue_def Let_def)

text \<open>
  C10. For every queue state and every list of ids, \<open>remove\<close> keeps exactly the entries
  whose \<open>event_id\<close> is not in the list: the result is the old queue filtered, so the kept
  entries are unmodified and in their old relative order, every entry with a listed id is
  gone, and \<open>maxSize\<close> is untouched.
\<close>

theorem remove_exact:
  "queue (remove q ids) = filter (\<lambda>e. event_id e \<notin> set ids) (queue q)
   \<and> subseq (queue (remove q ids)) (queue q)
   \<and> set (queue (remove q ids)) = {e \<in> set (queue q). event_id e \<notin> set ids}
   \<and> maxSize (remove q ids) = maxSize q"
  by (simp add: remove_def persist_def Let_def)

section \<open>Deduplication: facts\<close>

text \<open>
  C8. With \<open>maxCount = 3\<close> and \<open>windowMs = 5000\<close>, on a fingerprint the manager has not
  seen, four calls of which the later three come no more than 5000 ms after the first
  answer true, true, true, false; a further call more than 5000 ms after the first
  answers true and leaves the entry with \<open>count = 1\<close> and \<open>firstSeen\<close> at that call.
\<close>

theorem dedup_window:
  assumes "windowMs m = 5000" and "maxCount m = 3" and "seen m fp = None"
    and "t1 - t0 \<le> 5000" and "t2 - t0 \<le> 5000" and "t3 - t0 \<le> 5000"
    and "t4 - t0 > 5000"
  shows "fst (shouldCapture_calls m fp [t0, t1, t2, t3]) = [True, True, True, False]
       \<and> fst (shouldCapture (snd (shouldCapture_calls m fp [t0, t1, t2, t3])) t4 fp) = True
       \<and> getStats (snd (shouldCapture (snd (shouldCapture_calls m fp [t0, t1, t2, t3])) t4 fp)) fp
           = Some \<lparr>count = 1, firstSeen = t4, lastSeen = t4\<rparr>"
  using assms by (simp add: shouldCapture_def getStats_def Let_def)

theorem dedup_window_witness:
  "fst (shouldCapture_calls (new_DeduplicationManager 5000 3) ''a1b2c3d4'' [1000, 2000, 3000, 6000])
     = [True, True, True, False]
   \<and> fst (shouldCapture (snd (shouldCapture_calls (new_DeduplicationManager 5000 3) ''a1b2c3d4''
            [1000, 2000, 3000, 6000])) 6001 ''a1b2c3d4'') = True
   \<and> getStats (snd (shouldCapture (snd (shouldCapture_calls (new_DeduplicationManager 5000 3) ''a1b2c3d4''
            [1000, 2000, 3000, 6000])) 6001 ''a1b2c3d4'')) ''a1b2c3d4''
       = Some \<lparr>count = 1, firstSeen = 6001, lastSeen = 6001\<rparr>"
  using dedup_window [of "new_DeduplicationManager 5000 3" "''a1b2c3d4''" 2000 1000 3000 6000 6001]
  by (simp add: new_DeduplicationManager_def)

section \<open>Transport: facts\<close>

declare send_loop.simps [simp del]

declare decimal.simps [simp del]

lemma send_loop_retried_step:
  assumes "attempt < maxAttempts t" and "retried (fetch attempt)"
  shows "\<exists>le ls sl. send_loop t fetch rnd events attempt lastError lastStatus slept
                     = send_loop t fetch rnd events (Suc attempt) le ls sl"
  using assms
  by (subst send_loop.simps)
     (auto simp: retried_def Let_def split: fetchResult.splits jsonBody.splits if_splits)

lemma send_loop_skip:
  assumes "\<forall>i. attempt \<le> i \<and> i < k \<longrightarrow> retried (fetch i)"
    and "attempt \<le> k" and "k \<le> maxAttempts t"
  shows "\<exists>le ls sl. send_loop t fetch rnd events attempt lastError lastStatus slept
                     = send_loop t fetch rnd events k le ls sl"
  using assms
proof (induction k)
  case 0
  then show ?case by auto
next
  case (Suc k)
  show ?case
  proof (cases "attempt = Suc k")
    case True
    then show ?thesis by auto
  next
    case False
    with Suc.prems have le: "attempt \<le> k" and lt: "k < maxAttempts t" by simp_all
    from Suc.prems have "\<forall>i. attempt \<le> i \<and> i < k \<longrightarrow> retried (fetch i)" by simp
    from Suc.IH [OF this le] lt obtain le1 ls1 sl1 where
      a: "send_loop t fetch rnd events attempt lastError lastStatus slept
            = send_loop t fetch rnd events k le1 ls1 sl1" by auto
    from Suc.prems le have "retried (fetch k)" by simp
    from send_loop_retried_step [of k t fetch rnd events le1 ls1 sl1, OF lt this] obtain le2 ls2 sl2 where
      "send_loop t fetch rnd events k le1 ls1 sl1 = send_loop t fetch rnd events (Suc k) le2 ls2 sl2"
      by blast
    with a show ?thesis by auto
  qed
qed

lemma send_loop_exhausted:
  "fetches (send_loop t fetch rnd events (maxAttempts t) le ls sl) = maxAttempts t
   \<and> \<not> success (response (send_loop t fetch rnd events (maxAttempts t) le ls sl))"
  by (subst send_loop.simps, subst (2) send_loop.simps) simp

lemma fetches_ge:
  "attempt \<le> maxAttempts t \<Longrightarrow> attempt \<le> fetches (send_loop t fetch rnd events attempt le ls sl)"
proof (induction "maxAttempts t - attempt" arbitrary: attempt le ls sl)
  case 0
  then have "attempt = maxAttempts t" by simp
  then show ?case using send_loop_exhausted [of t fetch rnd events le ls sl] by simp
next
  case (Suc d)
  then have lt: "attempt < maxAttempts t" and d: "d = maxAttempts t - Suc attempt" by simp_all
  have "Suc attempt \<le> fetches (send_loop t fetch rnd events (Suc attempt) le' ls' sl')" for le' ls' sl'
    using Suc.hyps(1) [OF d] lt by simp
  then have *: "attempt \<le> fetches (send_loop t fetch rnd events (Suc attempt) le' ls' sl')" for le' ls' sl'
    using Suc_leD by blast
  show ?case
    using lt *
    by (subst send_loop.simps)
       (simp add: Let_def split: fetchResult.splits jsonBody.splits)
qed

lemma fetches_le:
  "attempt \<le> maxAttempts t \<Longrightarrow> fetches (send_loop t fetch rnd events attempt le ls sl) \<le> maxAttempts t"
proof (induction "maxAttempts t - attempt" arbitrary: attempt le ls sl)
  case 0
  then have "attempt = maxAttempts t" by simp
  then show ?case using send_loop_exhausted [of t fetch rnd events le ls sl] by simp
next
  case (Suc d)
  then have lt: "attempt < maxAttempts t" and d: "d = maxAttempts t - Suc attempt" by simp_all
  have *: "fetches (send_loop t fetch rnd events (Suc attempt) le' ls' sl') \<le> maxAttempts t" for le' ls' sl'
    using Suc.hyps(1) [OF d] lt by simp
  show ?case
    using lt *
    by (subst send_loop.simps)
       (simp add: Let_def split: fetchResult.splits jsonBody.splits)
qed

lemma send_nonempty:
  "endpoint t \<noteq> [] \<Longrightarrow> events \<noteq> [] \<Longrightarrow> send t fetch rnd events = send_loop t fetch rnd events 0 [] None []"
  by (simp add: send_def)

lemma further_attempt:
  assumes "k < maxAttempts t" and "\<forall>i<k. retried (fetch i)" and "retried (fetch k)"
  shows "if Suc k < maxAttempts t
         then Suc (Suc k) \<le> fetches (send_loop t fetch rnd events 0 le ls sl)
         else fetches (send_loop t fetch rnd events 0 le ls sl) = maxAttempts t
              \<and> \<not> success (response (send_loop t fetch rnd events 0 le ls sl))"
proof -
  from assms have all: "\<forall>i. 0 \<le> i \<and> i < Suc k \<longrightarrow> retried (fetch i)"
    using less_Suc_eq by auto
  from assms(1) have "Suc k \<le> maxAttempts t" by simp
  from send_loop_skip [OF all _ this, of rnd events le ls sl] obtain le' ls' sl' where
    eq: "send_loop t fetch rnd events 0 le ls sl = send_loop t fetch rnd events (Suc k) le' ls' sl'"
    by auto
  show ?thesis
  proof (cases "Suc k < maxAttempts t")
    case True
    then have "Suc (Suc k) \<le> fetches (send_loop t fetch rnd events (Suc k) le' ls' sl')"
      by (subst send_loop.simps)
         (auto simp: Let_def split: fetchResult.splits jsonBody.splits
               intro: Suc_leD fetches_ge [of "Suc (Suc k)", simplified])
    with True eq show ?thesis by simp
  next
    case False
    with assms(1) have "Suc k = maxAttempts t" by simp
    with eq send_loop_exhausted [of t fetch rnd events le' ls' sl'] False show ?thesis by simp
  qed
qed

lemma terminal_failure:
  assumes "k < maxAttempts t" and "\<forall>i<k. retried (fetch i)"
    and "fetch k = Resp r" and "\<not> ok r" and "\<not> isRetryableError (status r)"
  shows "fetches (send_loop t fetch rnd events 0 le ls sl) = Suc k
       \<and> response (send_loop t fetch rnd events 0 le ls sl)
           = \<lparr>success = False, eventIds = None, error = Some (httpError (status r) (bodyText r))\<rparr>"
proof -
  from assms have all: "\<forall>i. 0 \<le> i \<and> i < k \<longrightarrow> retried (fetch i)" by simp
  from assms(1) have "k \<le> maxAttempts t" by simp
  from send_loop_skip [OF all _ this, of rnd events le ls sl] obtain le' ls' sl' where
    eq: "send_loop t fetch rnd events 0 le ls sl = send_loop t fetch rnd events k le' ls' sl'"
    by auto
  show ?thesis
    unfolding eq using assms by (subst send_loop.simps, subst (2) send_loop.simps) simp
qed

lemma isRetryableError_iff:
  "isRetryableError st \<longleftrightarrow> (500 \<le> st \<and> st \<le> 599) \<or> st = 429 \<or> st = 408"
  by (auto simp: isRetryableError_def)

text \<open>
  C6. Let attempt \<open>k\<close> be within the budget and every earlier attempt have been
  retried.  \<open>send\<close> never makes more than \<open>maxAttempts\<close> calls.  If attempt \<open>k\<close> ends in
  a network exception, or in a response that is not 2xx whose status is in 500..599 or is
  429 or 408, then attempt \<open>k + 1\<close> is made when the budget allows it, and otherwise
  \<open>send\<close> stops at the budget with failure.  If attempt \<open>k\<close> ends in a response that is
  not 2xx with any other status, \<open>send\<close> has made exactly \<open>k + 1\<close> calls and returns
  the failure \<open>HTTP status: body\<close>: for \<open>k = 0\<close>, a single call.
\<close>

theorem send_retry_partition:
  assumes "endpoint t \<noteq> []" and "events \<noteq> []" and "k < maxAttempts t"
    and "\<forall>i<k. retried (fetch i)"
  shows "fetches (send t fetch rnd events) \<le> maxAttempts t
       \<and> (case fetch k of
            NetworkError msg \<Rightarrow>
              (if Suc k < maxAttempts t
               then Suc (Suc k) \<le> fetches (send t fetch rnd events)
               else fetches (send t fetch rnd events) = maxAttempts t
                    \<and> \<not> success (response (send t fetch rnd events)))
          | Resp r \<Rightarrow>
              ok r \<or>
              (if (500 \<le> status r \<and> status r \<le> 599) \<or> status r = 429 \<or> status r = 408
               then (if Suc k < maxAttempts t
                     then Suc (Suc k) \<le> fetches (send t fetch rnd events)
                     else fetches (send t fetch rnd events) = maxAttempts t
                          \<and> \<not> success (response (send t fetch rnd events)))
               else fetches (send t fetch rnd events) = Suc k
                    \<and> response (send t fetch rnd events)
                        = \<lparr>success = False, eventIds = None,
                           error = Some (httpError (status r) (bodyText r))\<rparr>))"
proof -
  let ?S = "send t fetch rnd events"
  have S: "?S = send_loop t fetch rnd events 0 [] None []"
    using assms(1,2) by (rule send_nonempty)
  have le: "fetches ?S \<le> maxAttempts t"
    unfolding S by (rule fetches_le) simp
  show ?thesis
  proof (cases "fetch k")
    case (NetworkError msg)
    then have "retried (fetch k)" by (simp add: retried_def)
    from further_attempt [OF assms(3,4) this, of rnd events "[]" None "[]"] le NetworkError
    show ?thesis unfolding S by simp
  next
    case (Resp r)
    show ?thesis
    proof (cases "ok r")
      case True
      with Resp le show ?thesis by simp
    next
      case notok: False
      show ?thesis
      proof (cases "isRetryableError (status r)")
        case True
        with Resp notok have "retried (fetch k)" by (simp add: retried_def)
        from further_attempt [OF assms(3,4) this, of rnd events "[]" None "[]"] le Resp True
        show ?thesis unfolding S by (simp add: isRetryableError_iff)
      next
        case False
        from terminal_failure [OF assms(3,4) Resp notok False, of rnd events "[]" None "[]"] le Resp False notok
        show ?thesis unfolding S by (simp add: isRetryableError_iff)
      qed
    qed
  qed
qed

lemma digit_char_code: "d < 10 \<Longrightarrow> (of_char (digit_char d) :: nat) = 48 + d"
proof -
  assume "d < 10"
  then have "d \<in> {0, 1, 2, 3, 4, 5, 6, 7, 8, 9}" by auto
  then show ?thesis by (auto simp: digit_char_def)
qed

lemma isDigit_digit_char: "d < 10 \<Longrightarrow> isDigit (digit_char d)"
  by (simp add: isDigit_def digit_char_code)

lemma digit_value_digit_char: "d < 10 \<Longrightarrow> digit_value (digit_char d) = d"
  by (simp add: digit_value_def digit_char_code)

lemma decimal_digits: "\<forall>c \<in> set (decimal n). isDigit c"
proof (induction n rule: decimal.induct)
  case (1 n)
  show ?case
  proof (cases "n < 10")
    case True
    then show ?thesis by (subst decimal.simps) (simp add: isDigit_digit_char)
  next
    case False
    with 1 show ?thesis by (subst decimal.simps) (simp add: isDigit_digit_char)
  qed
qed

lemma decimal_nonempty: "decimal n \<noteq> []"
  by (subst decimal.simps) simp

lemma digits_value_snoc: "digits_value (ds @ [c]) = digits_value ds * 10 + digit_value c"
  by (simp add: digits_value_def)

lemma digits_value_decimal: "digits_value (decimal n) = n"
proof (induction n rule: decimal.induct)
  case (1 n)
  show ?case
  proof (cases "n < 10")
    case True
    then show ?thesis
      by (subst decimal.simps) (simp add: digits_value_def digit_value_digit_char)
  next
    case False
    with 1 have "digits_value (decimal (n div 10)) = n div 10" by simp
    with False show ?thesis
      by (subst decimal.simps) (simp add: digits_value_snoc digit_value_digit_char)
  qed
qed

lemma isDigit_not_space: "isDigit c \<Longrightarrow> \<not> isWhiteSpace c"
  by (auto simp: isDigit_def isWhiteSpace_def)

lemma isDigit_not_sign: "isDigit c \<Longrightarrow> c \<noteq> CHR ''-'' \<and> c \<noteq> CHR ''+''"
  by (auto simp: isDigit_def)

lemma parseInt_decimal: "parseInt (decimal n) = Some (int n)"
proof -
  obtain c cs where d: "decimal n = c # cs"
    using decimal_nonempty [of n] by (cases "decimal n") auto
  have all: "\<forall>x \<in> set (c # cs). isDigit x"
    using decimal_digits [of n] d by simp
  then have c: "isDigit c" by simp
  have dw: "dropWhile isWhiteSpace (c # cs) = c # cs"
    using isDigit_not_space [OF c] by simp
  have tw: "takeWhile isDigit (c # cs) = c # cs"
    using all by (simp add: takeWhile_eq_all_conv)
  have "digits_value (c # cs) = n"
    using digits_value_decimal [of n] d by simp
  then show ?thesis
    unfolding parseInt_def d dw Let_def using isDigit_not_sign [OF c] tw by simp
qed

lemma backoff_le_cap: "calculateBackoffDelay t r a \<le> maxDelayMs t"
  by (simp add: calculateBackoffDelay_def Let_def)

lemma backoff_mono:
  assumes "0 \<le> baseDelayMs t" and "0 \<le> r1" and "r1 < 1" and "0 \<le> r2" and "a < b"
  shows "calculateBackoffDelay t r1 a \<le> calculateBackoffDelay t r2 b"
proof -
  let ?B = "real_of_int (baseDelayMs t)"
  have B: "0 \<le> ?B" using assms(1) by simp
  have Ea: "0 \<le> ?B * 2 ^ a" using B by simp
  have "(2::real) * 2 ^ a = 2 ^ Suc a" by simp
  also have "\<dots> \<le> 2 ^ b" using assms(5) by (intro power_increasing) simp_all
  finally have "?B * (2 * 2 ^ a) \<le> ?B * 2 ^ b" using B by (simp add: mult_left_mono)
  then have step: "2 * (?B * 2 ^ a) \<le> ?B * 2 ^ b" by (simp add: mult.left_commute)
  have "r1 * 0.3 * (?B * 2 ^ a) \<le> 1 * (?B * 2 ^ a)"
    using assms(2,3) Ea by (intro mult_right_mono) simp_all
  then have "?B * 2 ^ a + r1 * 0.3 * (?B * 2 ^ a) \<le> 2 * (?B * 2 ^ a)" by simp
  also note step
  also have "?B * 2 ^ b \<le> ?B * 2 ^ b + r2 * 0.3 * (?B * 2 ^ b)"
    using assms(4) B by simp
  finally have "\<lfloor>?B * 2 ^ a + r1 * 0.3 * (?B * 2 ^ a)\<rfloor> \<le> \<lfloor>?B * 2 ^ b + r2 * 0.3 * (?B * 2 ^ b)\<rfloor>"
    by (rule floor_mono)
  then show ?thesis
    by (simp add: calculateBackoffDelay_def Let_def min_le_iff_disj)
qed

lemma retryDelay_header:
  "retryAfter rsp = Some (decimal R) \<Longrightarrow> retryDelay t r a rsp = min (int R * 1000) (maxDelayMs t)"
  by (simp add: retryDelay_def Let_def parseInt_decimal decimal_nonempty)

lemma retryDelay_no_header:
  "retryAfter rsp = None \<Longrightarrow> retryDelay t r a rsp = calculateBackoffDelay t r a"
  by (simp add: retryDelay_def Let_def)

lemma send_loop_retried_sleep:
  assumes "attempt < maxAttempts t" and "retried (fetch attempt)"
  shows "\<exists>le ls. send_loop t fetch rnd events attempt lastError lastStatus slept
                  = send_loop t fetch rnd events (Suc attempt) le ls
                      (if Suc attempt < maxAttempts t
                       then slept @ [attemptDelay t fetch rnd attempt] else slept)"
  using assms
  by (subst send_loop.simps)
     (auto simp: retried_def attemptDelay_def Let_def split: fetchResult.splits jsonBody.splits)

lemma send_loop_skip_sleeps:
  assumes "\<forall>i. attempt \<le> i \<and> i < k \<longrightarrow> retried (fetch i)"
    and "attempt \<le> k" and "k < maxAttempts t"
  shows "\<exists>le ls. send_loop t fetch rnd events attempt lastError lastStatus slept
                  = send_loop t fetch rnd events k le ls
                      (slept @ map (attemptDelay t fetch rnd) [attempt..<k])"
  using assms
proof (induction k)
  case 0
  then show ?case by auto
next
  case (Suc k)
  show ?case
  proof (cases "attempt = Suc k")
    case True
    then show ?thesis by auto
  next
    case False
    with Suc.prems have le: "attempt \<le> k" and lt: "k < maxAttempts t" by simp_all
    from Suc.prems have "\<forall>i. attempt \<le> i \<and> i < k \<longrightarrow> retried (fetch i)" by simp
    from Suc.IH [OF this le lt] obtain le1 ls1 where
      a: "send_loop t fetch rnd events attempt lastError lastStatus slept
            = send_loop t fetch rnd events k le1 ls1 (slept @ map (attemptDelay t fetch rnd) [attempt..<k])"
      by auto
    from Suc.prems le have "retried (fetch k)" by simp
    from send_loop_retried_sleep [of k t fetch rnd events le1 ls1
           "slept @ map (attemptDelay t fetch rnd) [attempt..<k]", OF lt this] Suc.prems(3)
    obtain le2 ls2 where
      "send_loop t fetch rnd events k le1 ls1 (slept @ map (attemptDelay t fetch rnd) [attempt..<k])
         = send_loop t fetch rnd events (Suc k) le2 ls2
             ((slept @ map (attemptDelay t fetch rnd) [attempt..<k]) @ [attemptDelay t fetch rnd k])"
      by auto
    with a le show ?thesis by auto
  qed
qed

lemma sleeps_prefix:
  "attempt \<le> maxAttempts t \<Longrightarrow>
   \<exists>ys. sleeps (send_loop t fetch rnd events attempt le ls slept) = slept @ ys"
proof (induction "maxAttempts t - attempt" arbitrary: attempt le ls slept)
  case 0
  then have "attempt = maxAttempts t" by simp
  then show ?case by (subst send_loop.simps) simp
next
  case (Suc d)
  then have lt: "attempt < maxAttempts t" and d: "d = maxAttempts t - Suc attempt" by simp_all
  have *: "\<exists>ys. sleeps (send_loop t fetch rnd events (Suc attempt) le' ls' sl') = sl' @ ys" for le' ls' sl'
    using Suc.hyps(1) [OF d] lt by simp
  have **: "\<exists>ys. sleeps (send_loop t fetch rnd events (Suc attempt) le' ls' (slept @ [x])) = slept @ ys" for le' ls' x
    using * [of le' ls' "slept @ [x]"] by auto
  show ?case
    using lt * **
    by (subst send_loop.simps)
       (simp add: Let_def split: fetchResult.splits jsonBody.splits)
qed

lemma sleeps_nth:
  assumes "\<forall>i \<le> k. retried (fetch i)" and "Suc k < maxAttempts t"
  shows "sleeps (send_loop t fetch rnd events 0 le ls []) ! k = attemptDelay t fetch rnd k"
proof -
  from assms have all: "\<forall>i. 0 \<le> i \<and> i < Suc k \<longrightarrow> retried (fetch i)" by auto
  from send_loop_skip_sleeps [OF all _ assms(2), of rnd events le ls "[]"] obtain le1 ls1 where
    "send_loop t fetch rnd events 0 le ls []
       = send_loop t fetch rnd events (Suc k) le1 ls1 (map (attemptDelay t fetch rnd) [0..<Suc k])"
    by auto
  moreover from sleeps_prefix [of "Suc k" t fetch rnd events le1 ls1 "map (attemptDelay t fetch rnd) [0..<Suc k]"] assms(2)
  obtain ys where
    "sleeps (send_loop t fetch rnd events (Suc k) le1 ls1 (map (attemptDelay t fetch rnd) [0..<Suc k]))
       = map (attemptDelay t fetch rnd) [0..<Suc k] @ ys"
    by auto
  ultimately have "sleeps (send_loop t fetch rnd events 0 le ls [])
                     = map (attemptDelay t fetch rnd) [0..<Suc k] @ ys" by simp
  then have "sleeps (send_loop t fetch rnd events 0 le ls []) ! k
               = (map (attemptDelay t fetch rnd) [0..<Suc k] @ ys) ! k" by simp
  also have "\<dots> = map (attemptDelay t fetch rnd) [0..<Suc k] ! k"
    by (simp only: nth_append length_map length_upt) simp
  also have "\<dots> = attemptDelay t fetch rnd k"
    by (simp only: nth_map length_upt nth_upt) simp
  finally show ?thesis .
qed

lemma attemptDelay_no_header:
  "noRetryAfter (fetch k) \<Longrightarrow> attemptDelay t fetch rnd k = calculateBackoffDelay t (rnd k) k"
  by (auto simp: attemptDelay_def noRetryAfter_def retryDelay_no_header split: fetchResult.splits)

text \<open>
  C7. For random numbers in \<open>[0, 1)\<close>: the backoff delay of an attempt \<open>i\<close> is at most
  that of every later attempt \<open>j\<close>, and the backoff delay of no attempt exceeds
  \<open>maxDelayMs\<close> (30000 in every constructed transport).  For every attempt \<open>j\<close>, the
  first included, a response with \<open>Retry-After: R\<close> (decimal seconds) makes the computed
  delay \<open>min (R * 1000) maxDelayMs\<close>.  In a \<open>send\<close> whose attempts up to \<open>j\<close> are
  retried with budget left: without \<open>Retry-After\<close> headers the delay slept after
  attempt \<open>j\<close> is capped and at least the delay slept after every earlier attempt; and
  when the response of attempt \<open>j\<close> carries \<open>Retry-After: R\<close>, the delay slept after
  it is \<open>min (R * 1000) maxDelayMs\<close>, whatever \<open>j\<close> is.
\<close>

theorem backoff_delay_properties:
  assumes "0 \<le> baseDelayMs t" and "\<forall>n. 0 \<le> rnd n \<and> rnd n < 1"
    and "endpoint t \<noteq> []" and "events \<noteq> []"
  shows "(i < j \<longrightarrow> calculateBackoffDelay t (rnd i) i \<le> calculateBackoffDelay t (rnd j) j)
       \<and> calculateBackoffDelay t (rnd j) j \<le> maxDelayMs t
       \<and> (\<forall>r R. retryAfter r = Some (decimal R) \<longrightarrow>
            retryDelay t (rnd j) j r = min (int R * 1000) (maxDelayMs t))
       \<and> (Suc j < maxAttempts t \<and> (\<forall>n \<le> j. retried (fetch n)) \<longrightarrow>
            ((\<forall>n \<le> j. noRetryAfter (fetch n)) \<longrightarrow>
               (i < j \<longrightarrow>
                  sleeps (send t fetch rnd events) ! i \<le> sleeps (send t fetch rnd events) ! j)
               \<and> sleeps (send t fetch rnd events) ! j \<le> maxDelayMs t)
            \<and> (\<forall>r R. fetch j = Resp r \<and> \<not> ok r \<and> retryAfter r = Some (decimal R) \<longrightarrow>
                 sleeps (send t fetch rnd events) ! j = min (int R * 1000) (maxDelayMs t)))"
proof -
  have S: "send t fetch rnd events = send_loop t fetch rnd events 0 [] None []"
    using assms(3,4) by (rule send_nonempty)
  have mono: "calculateBackoffDelay t (rnd i) i \<le> calculateBackoffDelay t (rnd j) j" if "i < j"
    using assms(1,2) that by (intro backoff_mono) auto
  have cap: "calculateBackoffDelay t (rnd j) j \<le> maxDelayMs t"
    by (rule backoff_le_cap)
  have hdr: "\<forall>r R. retryAfter r = Some (decimal R) \<longrightarrow>
               retryDelay t (rnd j) j r = min (int R * 1000) (maxDelayMs t)"
    by (simp add: retryDelay_header)
  have used: "((\<forall>n \<le> j. noRetryAfter (fetch n)) \<longrightarrow>
               (i < j \<longrightarrow>
                  sleeps (send t fetch rnd events) ! i \<le> sleeps (send t fetch rnd events) ! j)
               \<and> sleeps (send t fetch rnd events) ! j \<le> maxDelayMs t)
            \<and> (\<forall>r R. fetch j = Resp r \<and> \<not> ok r \<and> retryAfter r = Some (decimal R) \<longrightarrow>
                 sleeps (send t fetch rnd events) ! j = min (int R * 1000) (maxDelayMs t))"
    if budget: "Suc j < maxAttempts t" and all: "\<forall>n \<le> j. retried (fetch n)"
  proof -
    have nj: "sleeps (send t fetch rnd events) ! j = attemptDelay t fetch rnd j"
      unfolding S using budget all by (intro sleeps_nth) auto
    have ni: "sleeps (send t fetch rnd events) ! i = attemptDelay t fetch rnd i" if "i < j"
      unfolding S using that budget all by (intro sleeps_nth) auto
    have a: "(\<forall>n \<le> j. noRetryAfter (fetch n)) \<longrightarrow>
              (i < j \<longrightarrow>
                 sleeps (send t fetch rnd events) ! i \<le> sleeps (send t fetch rnd events) ! j)
              \<and> sleeps (send t fetch rnd events) ! j \<le> maxDelayMs t"
      using mono cap by (auto simp: ni nj attemptDelay_no_header)
    have b: "\<forall>r R. fetch j = Resp r \<and> \<not> ok r \<and> retryAfter r = Some (decimal R) \<longrightarrow>
              sleeps (send t fetch rnd events) ! j = min (int R * 1000) (maxDelayMs t)"
      by (auto simp: nj attemptDelay_def retryDelay_header)
    from a b show ?thesis by blast
  qed
  from mono cap hdr used show ?thesis by blast
qed

theorem send_retry_partition_witness:
  "fetches (send (new_Transport ''https://collector.example/errors'' 3)
              (\<lambda>i. if i = 0 then Resp (reply 503 ''busy'' None) else Resp (reply 404 ''gone'' None))
              (\<lambda>i. 0) [ev ''e1'' 0]) = 2
   \<and> response (send (new_Transport ''https://collector.example/errors'' 3)
              (\<lambda>i. if i = 0 then Resp (reply 503 ''busy'' None) else Resp (reply 404 ''gone'' None))
              (\<lambda>i. 0) [ev ''e1'' 0])
       = \<lparr>success = False, eventIds = None, error = Some ''HTTP 404: gone''\<rparr>"
  using send_retry_partition [of "new_Transport ''https://collector.example/errors'' 3" "[ev ''e1'' 0]" 1
          "\<lambda>i. if i = 0 then Resp (reply 503 ''busy'' None) else Resp (reply 404 ''gone'' None)" "\<lambda>i. 0"]
  by (simp add: new_Transport_def reply_def retried_def ok_def isRetryableError_def httpError_def
        decimal.simps digit_char_def)

lemma decimal_2: "decimal 2 = ''2''"
  by (simp add: decimal.simps digit_char_def)

theorem backoff_delay_properties_witness:
  "calculateBackoffDelay (new_Transport ''https://collector.example/errors'' 3) (1 / 2) 0
     \<le> calculateBackoffDelay (new_Transport ''https://collector.example/errors'' 3) (1 / 2) 1
   \<and> sleeps (send (new_Transport ''https://collector.example/errors'' 3)
              (\<lambda>n. NetworkError ''offline'') (\<lambda>n. 1 / 2) [ev ''e1'' 0]) ! 0
       \<le> sleeps (send (new_Transport ''https://collector.example/errors'' 3)
              (\<lambda>n. NetworkError ''offline'') (\<lambda>n. 1 / 2) [ev ''e1'' 0]) ! 1
   \<and> retryDelay (new_Transport ''https://collector.example/errors'' 3) (1 / 2) 0
         (reply 503 ''busy'' (Some ''2'')) = 2000
   \<and> sleeps (send (new_Transport ''https://collector.example/errors'' 3)
              (\<lambda>n. Resp (reply 503 ''busy'' (Some ''2''))) (\<lambda>n. 1 / 2) [ev ''e1'' 0]) ! 0
       = 2000
   \<and> sleeps (send (new_Transport ''https://collector.example/errors'' 3)
              (\<lambda>n. Resp (reply 503 ''busy'' (Some ''2''))) (\<lambda>n. 1 / 2) [ev ''e1'' 0]) ! 1
       = 2000"
proof -
  let ?T = "new_Transport ''https://collector.example/errors'' 3"
  let ?rnd = "\<lambda>n::nat. 1 / 2 :: real"
  let ?E = "[ev ''e1'' 0]"
  let ?F1 = "\<lambda>n::nat. NetworkError ''offline''"
  let ?R = "reply 503 ''busy'' (Some ''2'')"
  let ?F2 = "\<lambda>n::nat. Resp ?R"
  have base: "0 \<le> baseDelayMs ?T" and ep: "endpoint ?T \<noteq> []"
    and budget0: "Suc 0 < maxAttempts ?T" and budget1: "Suc 1 < maxAttempts ?T"
    by (simp_all add: new_Transport_def)
  have rn: "\<forall>n. 0 \<le> ?rnd n \<and> ?rnd n < 1" by simp
  have ev: "?E \<noteq> []" by simp
  have ij: "(0::nat) < 1" by simp
  have r1: "\<forall>n \<le> 1. retried (?F1 n)" by (simp add: retried_def)
  have r2: "\<forall>n \<le> 1. retried (?F2 n)" and r20: "\<forall>n \<le> 0. retried (?F2 n)"
    by (simp_all add: retried_def reply_def ok_def isRetryableError_def)
  have n1: "\<forall>n \<le> 1. noRetryAfter (?F1 n)" by (simp add: noRetryAfter_def)
  have hd0: "?F2 0 = Resp ?R \<and> \<not> ok ?R \<and> retryAfter ?R = Some (decimal 2)"
    and hd1: "?F2 1 = Resp ?R \<and> \<not> ok ?R \<and> retryAfter ?R = Some (decimal 2)"
    and hdr: "retryAfter ?R = Some (decimal 2)"
    by (simp_all add: reply_def ok_def decimal.simps digit_char_def)
  have cap: "maxDelayMs ?T = 30000" by (simp add: new_Transport_def)
  from backoff_delay_properties [OF base rn ep ev, of 0 1 ?F1] ij budget1 r1 n1
  have a: "calculateBackoffDelay ?T (1 / 2) 0 \<le> calculateBackoffDelay ?T (1 / 2) 1"
    and b: "sleeps (send ?T ?F1 ?rnd ?E) ! 0 \<le> sleeps (send ?T ?F1 ?rnd ?E) ! 1"
    by blast+
  from backoff_delay_properties [OF base rn ep ev, of 0 0 ?F2] budget0 r20 hd0 hdr
  have c0: "retryDelay ?T (1 / 2) 0 ?R = min (int 2 * 1000) (maxDelayMs ?T)"
    and d0: "sleeps (send ?T ?F2 ?rnd ?E) ! 0 = min (int 2 * 1000) (maxDelayMs ?T)"
    by blast+
  from c0 have c: "retryDelay ?T (1 / 2) 0 ?R = 2000"
    by (simp only: cap)
  from d0 have d: "sleeps (send ?T ?F2 ?rnd ?E) ! 0 = 2000"
    by (simp only: cap)
  from backoff_delay_properties [OF base rn ep ev, of 0 1 ?F2] budget1 r2 hd1
  have "sleeps (send ?T ?F2 ?rnd ?E) ! 1 = min (int 2 * 1000) (maxDelayMs ?T)"
    by blast
  then have e: "sleeps (send ?T ?F2 ?rnd ?E) ! 1 = 2000"
    by (simp only: cap)
  from a b c d e show ?thesis by blast
qed

text \<open>The delays of that run: \<open>floor (1000 * 1.15)\<close> and \<open>floor (2000 * 1.15)\<close>.\<close>

lemma sleeps_value:
  "sleeps (send (new_Transport ''https://collector.example/errors'' 3)
              (\<lambda>n. NetworkError ''offline'') (\<lambda>n. 1 / 2) [ev ''e1'' 0]) = [1150, 2300]"
  by (simp add: send_def new_Transport_def send_loop.simps calculateBackoffDelay_def Let_def)

section \<open>Sanitizer: facts\<close>

declare sanitizeRecursive.simps [simp del]
declare safeClone.simps [simp del]
declare errorsSettled.simps [simp del]
declare markerFree.simps [simp del]

lemma test_keeps: "\<not> (global p \<or> sticky p) \<Longrightarrow> snd (test p key) = p"
  by (simp add: test_def Let_def split: option.splits)

lemma some_test_keeps:
  "list_all (\<lambda>p. \<not> (global p \<or> sticky p)) ps \<Longrightarrow> snd (some_test ps key) = ps"
proof (induction ps)
  case Nil
  then show ?case by simp
next
  case (Cons p ps)
  then have p: "snd (test p key) = p" and ps: "snd (some_test ps key) = ps"
    by (simp_all add: test_keeps)
  obtain b where t: "test p key = (b, p)" using p by (cases "test p key") simp
  obtain f where r: "some_test ps key = (f, ps)" using ps by (cases "some_test ps key") simp
  show ?case by (cases b) (simp_all add: t r)
qed

lemma defaults_stateless: "list_all (\<lambda>p. \<not> (global p \<or> sticky p)) DEFAULT_REDACT_PATTERNS"
  by (simp add: DEFAULT_REDACT_PATTERNS_def regex_def)

lemma some_test_append:
  assumes "list_all (\<lambda>p. \<not> (global p \<or> sticky p)) ds"
  shows "some_test (ds @ cs) key
         = (if fst (some_test ds key) then (True, ds @ cs)
            else (fst (some_test cs key), ds @ snd (some_test cs key)))"
  using assms
proof (induction ds)
  case Nil
  then show ?case by (cases "some_test cs key") auto
next
  case (Cons p ds)
  then have p: "snd (test p key) = p" by (simp add: test_keeps)
  obtain b where t: "test p key = (b, p)" using p by (cases "test p key") simp
  from Cons have ih: "some_test (ds @ cs) key
         = (if fst (some_test ds key) then (True, ds @ cs)
            else (fst (some_test cs key), ds @ snd (some_test cs key)))" by simp
  show ?case
    by (cases b) (auto simp: t ih split: prod.splits)
qed

text \<open>The default patterns are never written.\<close>

lemma defaults_unchanged:
  "take (length DEFAULT_REDACT_PATTERNS) (snd (some_test (DEFAULT_REDACT_PATTERNS @ cs) key))
     = DEFAULT_REDACT_PATTERNS"
  by (simp add: some_test_append [OF defaults_stateless])

lemma shouldRedact_auto:
  "autoRedact s \<Longrightarrow> shouldRedact s key
     = (if fst (some_test DEFAULT_REDACT_PATTERNS key) then (True, s)
        else (fst (some_test (customPatterns s) key),
              s\<lparr>customPatterns := snd (some_test (customPatterns s) key)\<rparr>))"
  by (simp add: shouldRedact_def some_test_append [OF defaults_stateless])

lemma shouldRedact_custom:
  "\<not> autoRedact s \<Longrightarrow> shouldRedact s key
     = (fst (some_test (customPatterns s) key),
        s\<lparr>customPatterns := snd (some_test (customPatterns s) key)\<rparr>)"
  by (simp add: shouldRedact_def split: prod.splits)

lemma shouldRedact_keeps: "stateless s \<Longrightarrow> shouldRedact s key = (redacts s key, s)"
proof -
  assume "stateless s"
  then have k: "snd (some_test (customPatterns s) key) = customPatterns s"
    by (simp add: stateless_def some_test_keeps)
  have "snd (shouldRedact s key) = s"
    by (cases "autoRedact s") (simp_all add: shouldRedact_auto shouldRedact_custom k)
  then show ?thesis by (simp add: redacts_def prod_eq_iff)
qed

lemma san_deep:
  "maxDepth \<le> d \<Longrightarrow> sanitizeRecursive s h v maxDepth d = (Inr (JStr ''[Max Depth Reached]''), s)"
  by (subst sanitizeRecursive.simps) simp

lemma san_prim:
  assumes "d < maxDepth"
  shows "sanitizeRecursive s h JUndefined maxDepth d = (Inr JUndefined, s)"
    and "sanitizeRecursive s h JNull maxDepth d = (Inr JNull, s)"
    and "sanitizeRecursive s h (JBool b) maxDepth d = (Inr (JBool b), s)"
    and "sanitizeRecursive s h (JNum n) maxDepth d = (Inr (JNum n), s)"
    and "sanitizeRecursive s h (JStr t) maxDepth d = (Inr (JStr t), s)"
    and "sanitizeRecursive s h (JError name msg st) maxDepth d = (Inr (errorObject name msg st), s)"
    and "sanitizeRecursive s h (JDate (Some t)) maxDepth d = (Inr (JStr t), s)"
    and "sanitizeRecursive s h (JDate None) maxDepth d = (Inl RangeError, s)"
  using assms by (subst sanitizeRecursive.simps, simp)+

lemma san_JArr:
  "d < maxDepth \<Longrightarrow> sanitizeRecursive s h (JArr items) maxDepth d
     = map_prod arrayResult id (mapItems (\<lambda>s' x. sanitizeRecursive s' h x maxDepth (Suc d)) s items)"
  by (subst sanitizeRecursive.simps) simp

lemma san_JObj:
  "d < maxDepth \<Longrightarrow> sanitizeRecursive s h (JObj entries) maxDepth d
     = map_prod objectResult id (mapFields (\<lambda>s' x. sanitizeRecursive s' h x maxDepth (Suc d)) s entries)"
  by (subst sanitizeRecursive.simps) simp

lemma san_JRef:
  "d < maxDepth \<Longrightarrow> sanitizeRecursive s h (JRef a) maxDepth d
     = (case deref h a of
          CArr items \<Rightarrow>
            map_prod arrayResult id (mapItems (\<lambda>s' x. sanitizeRecursive s' h x maxDepth (Suc d)) s items)
        | CObj entries \<Rightarrow>
            map_prod objectResult id (mapFields (\<lambda>s' x. sanitizeRecursive s' h x maxDepth (Suc d)) s entries))"
  by (subst sanitizeRecursive.simps) (simp split: cell.splits)

text \<open>With patterns that keep no state, the walk leaves the sanitizer as it was.\<close>

lemma mapItems_keeps:
  assumes "\<And>x. snd (f s x) = s"
  shows "snd (mapItems f s items) = s"
proof (induction items)
  case Nil
  then show ?case by simp
next
  case (Cons x items)
  obtain r where fx: "f s x = (r, s)" using assms [of x] by (cases "f s x") simp
  obtain rs where m: "mapItems f s items = (rs, s)" using Cons by (cases "mapItems f s items") simp
  show ?case by (simp add: fx m split: sum.splits)
qed

lemma mapFields_keeps:
  assumes "stateless s" and "\<And>x. snd (f s x) = s"
  shows "snd (mapFields f s entries) = s"
proof (induction entries)
  case Nil
  then show ?case by simp
next
  case (Cons kv entries)
  obtain key v where kv: "kv = (key, v)" by (cases kv)
  obtain r where fx: "f s v = (r, s)" using assms(2) [of v] by (cases "f s v") simp
  obtain rs where m: "mapFields f s entries = (rs, s)"
    using Cons by (cases "mapFields f s entries") simp
  show ?case
    by (simp add: kv shouldRedact_keeps [OF assms(1)] fx m split: sum.splits bool.splits)
qed

lemma sanitizeRecursive_keeps:
  assumes "stateless s"
  shows "snd (sanitizeRecursive s h v maxDepth d) = s"
proof (induction "maxDepth - d" arbitrary: v d)
  case 0
  then show ?case by (simp add: san_deep)
next
  case (Suc n)
  then have n: "n = maxDepth - Suc d" and lt: "d < maxDepth" by simp_all
  have IH: "\<And>x. snd (sanitizeRecursive s h x maxDepth (Suc d)) = s"
    using Suc.hyps(1) [OF n] by simp
  note arr = mapItems_keeps [of "\<lambda>s' x. sanitizeRecursive s' h x maxDepth (Suc d)" s, OF IH]
  note obj = mapFields_keeps [of s "\<lambda>s' x. sanitizeRecursive s' h x maxDepth (Suc d)", OF assms IH]
  show ?case
  proof (cases v)
    case (JDate t)
    then show ?thesis using lt by (cases t) (simp_all add: san_prim)
  next
    case (JArr items)
    then show ?thesis using lt arr by (simp add: san_JArr)
  next
    case (JObj entries)
    then show ?thesis using lt obj by (simp add: san_JObj)
  next
    case (JRef a)
    then show ?thesis using lt arr obj by (simp add: san_JRef split: cell.splits)
  qed (use lt in \<open>simp_all add: san_prim\<close>)
qed

text \<open>Without patterns \<open>sanitizeRecursive\<close> is \<open>safeClone\<close>.\<close>

lemma no_patterns:
  "\<not> autoRedact s \<Longrightarrow> customPatterns s = [] \<Longrightarrow> shouldRedact s key = (False, s)"
  by (simp add: shouldRedact_def)

lemma mapItems_clone:
  assumes "\<And>x. f s x = (g x, s)"
  shows "mapItems f s items = (cloneItems g items, s)"
  by (induction items) (simp_all add: assms split: sum.splits)

lemma mapFields_clone:
  assumes "\<not> autoRedact s" and "customPatterns s = []" and "\<And>x. f s x = (g x, s)"
  shows "mapFields f s entries = (cloneFields g entries, s)"
proof (induction entries)
  case Nil
  then show ?case by simp
next
  case (Cons kv entries)
  obtain key v where kv: "kv = (key, v)" by (cases kv)
  show ?case
    by (simp add: kv no_patterns [OF assms(1,2)] assms(3) Cons split: sum.splits)
qed

lemma safeClone_sanitizeRecursive:
  assumes "\<not> autoRedact s" and "customPatterns s = []"
  shows "sanitizeRecursive s h v maxDepth d = (safeClone h v maxDepth d, s)"
proof (induction "maxDepth - d" arbitrary: v d)
  case 0
  then show ?case
    by (subst safeClone.simps, subst sanitizeRecursive.simps) simp
next
  case (Suc n)
  then have n: "n = maxDepth - Suc d" and lt: "\<not> maxDepth \<le> d" by simp_all
  have ih: "\<And>x. sanitizeRecursive s h x maxDepth (Suc d) = (safeClone h x maxDepth (Suc d), s)"
    using Suc.hyps(1) [OF n] by auto
  note arr = mapItems_clone [of "\<lambda>s' x. sanitizeRecursive s' h x maxDepth (Suc d)" s
               "\<lambda>x. safeClone h x maxDepth (Suc d)", OF ih]
  note obj = mapFields_clone [of s "\<lambda>s' x. sanitizeRecursive s' h x maxDepth (Suc d)"
               "\<lambda>x. safeClone h x maxDepth (Suc d)", OF assms ih]
  show ?case
    using lt
    by (subst safeClone.simps, subst sanitizeRecursive.simps)
       (simp add: arr obj split: jsval.splits cell.splits option.splits)
qed

lemma sanitize_eq: "sanitize s h v maxDepth = sanitizeRecursive s h v maxDepth 0"
  by (simp add: sanitize_def safeClone_sanitizeRecursive)

lemma settled_JError:
  "d < maxDepth \<Longrightarrow> errorsSettled s h (JError name msg st) maxDepth d
     = (Suc d < maxDepth \<and> \<not> redacts s ''name'' \<and> \<not> redacts s ''message''
        \<and> \<not> redacts s ''stack'')"
  by (subst errorsSettled.simps) simp

lemma settled_JArr:
  "d < maxDepth \<Longrightarrow> errorsSettled s h (JArr items) maxDepth d
     = list_all (\<lambda>x. errorsSettled s h x maxDepth (Suc d)) items"
  by (subst errorsSettled.simps) simp

lemma settled_JObj:
  "d < maxDepth \<Longrightarrow> errorsSettled s h (JObj entries) maxDepth d
     = list_all (\<lambda>(key, x). if redacts s key then True
                               else errorsSettled s h x maxDepth (Suc d)) entries"
  by (subst errorsSettled.simps) simp

lemma settled_JRef:
  "d < maxDepth \<Longrightarrow> errorsSettled s h (JRef a) maxDepth d
     = (case deref h a of
          CArr items \<Rightarrow> list_all (\<lambda>x. errorsSettled s h x maxDepth (Suc d)) items
        | CObj entries \<Rightarrow>
            list_all (\<lambda>(key, x). if redacts s key then True
                                   else errorsSettled s h x maxDepth (Suc d)) entries)"
  by (subst errorsSettled.simps) (simp split: cell.splits)

text \<open>An array of settled items, sanitized, is a fixed point of the second pass.\<close>

lemma mapItems_again:
  assumes keeps: "\<And>x. snd (f s x) = s"
    and again: "\<And>x y'. fst (f s x) = Inr y' \<Longrightarrow> P x \<Longrightarrow> g s y' = (Inr y', s)"
  shows "fst (mapItems f s items) = Inr ys \<Longrightarrow> list_all P items \<Longrightarrow> mapItems g s ys = (Inr ys, s)"
proof (induction items arbitrary: ys)
  case Nil
  then show ?case by auto
next
  case (Cons x items)
  obtain r where fx: "f s x = (r, s)" using keeps [of x] by (cases "f s x") simp
  obtain rs where m: "mapItems f s items = (rs, s)"
    using mapItems_keeps [of f s items, OF keeps] by (cases "mapItems f s items") simp
  from Cons.prems(1) obtain y ys' where r: "r = Inr y" and rs: "rs = Inr ys'" and ys: "ys = y # ys'"
    by (auto simp: fx m split: sum.splits)
  from Cons.prems(2) have px: "P x" and rest: "list_all P items" by simp_all
  from again [of x y] fx r px have gy: "g s y = (Inr y, s)" by simp
  from Cons.IH [of ys'] m rs rest have "mapItems g s ys' = (Inr ys', s)" by simp
  with gy ys show ?case by simp
qed

lemma mapFields_again:
  assumes st: "stateless s"
    and keeps: "\<And>x. snd (f s x) = s"
    and again: "\<And>x y'. fst (f s x) = Inr y' \<Longrightarrow> P x \<Longrightarrow> g s y' = (Inr y', s)"
  shows "fst (mapFields f s entries) = Inr es
         \<Longrightarrow> list_all (\<lambda>(key, x). if redacts s key then True else P x) entries
         \<Longrightarrow> mapFields g s es = (Inr es, s)"
proof (induction entries arbitrary: es)
  case Nil
  then show ?case by auto
next
  case (Cons kv entries)
  obtain key v where kv: "kv = (key, v)" by (cases kv)
  note red = shouldRedact_keeps [OF st]
  obtain rs where m: "mapFields f s entries = (rs, s)"
    using mapFields_keeps [of s f entries, OF st keeps] by (cases "mapFields f s entries") simp
  from Cons.prems(2) kv have rest: "list_all (\<lambda>(key, x). if redacts s key then True else P x) entries"
    by simp
  show ?case
  proof (cases "redacts s key")
    case True
    with Cons.prems(1) kv obtain es' where rs: "rs = Inr es'"
      and es: "es = setOwn key (JStr (redactedValue s)) es'"
      by (auto simp: red m split: sum.splits)
    from Cons.IH [of es'] m rs rest have ih: "mapFields g s es' = (Inr es', s)" by simp
    show ?thesis
      using ih True by (simp add: es setOwn_def red)
  next
    case False
    obtain r where fx: "f s v = (r, s)" using keeps [of v] by (cases "f s v") simp
    from Cons.prems(1) kv False obtain v' es' where r: "r = Inr v'" and rs: "rs = Inr es'"
      and es: "es = setOwn key v' es'"
      by (auto simp: red fx m split: sum.splits)
    from Cons.prems(2) kv False have "P v" by simp
    from again [of v v'] fx r this have gv: "g s v' = (Inr v', s)" by simp
    from Cons.IH [of es'] m rs rest have ih: "mapFields g s es' = (Inr es', s)" by simp
    show ?thesis
      using ih False gv by (simp add: es setOwn_def red)
  qed
qed

lemma errorObject_again:
  assumes "stateless s" and "Suc d < maxDepth" and "\<not> redacts s ''name''"
    and "\<not> redacts s ''message''" and "\<not> redacts s ''stack''"
  shows "sanitizeRecursive s h (errorObject name msg st) maxDepth d
           = (Inr (errorObject name msg st), s)"
proof -
  from assms(2) have d: "d < maxDepth" by simp
  show ?thesis
    unfolding errorObject_def
    using assms(3-5) san_prim [of "Suc d" maxDepth s h] assms(2)
    by (cases st)
       (simp_all add: san_JObj [OF d] shouldRedact_keeps [OF assms(1)] setOwn_def objectResult_def)
qed

lemma sanitizeRecursive_again:
  assumes st: "stateless s"
  shows "sanitizeRecursive s h v maxDepth d = (Inr y, s1) \<Longrightarrow> errorsSettled s h v maxDepth d
         \<Longrightarrow> sanitizeRecursive s h' y maxDepth d = (Inr y, s)"
proof (induction "maxDepth - d" arbitrary: v d y s1)
  case 0
  then have deep: "maxDepth \<le> d" by simp
  with 0 show ?case by (simp add: san_deep)
next
  case (Suc n)
  then have n: "n = maxDepth - Suc d" and lt: "d < maxDepth" by simp_all
  note first = Suc.prems(1) and settled = Suc.prems(2)
  let ?f = "\<lambda>s' x. sanitizeRecursive s' h x maxDepth (Suc d)"
  let ?g = "\<lambda>s' x. sanitizeRecursive s' h' x maxDepth (Suc d)"
  let ?P = "\<lambda>x. errorsSettled s h x maxDepth (Suc d)"
  have keeps: "\<And>x. snd (?f s x) = s" by (simp add: sanitizeRecursive_keeps [OF st])
  have IH: "\<And>x y'. fst (?f s x) = Inr y' \<Longrightarrow> ?P x \<Longrightarrow> ?g s y' = (Inr y', s)"
  proof -
    fix x y'
    assume a: "fst (?f s x) = Inr y'" and p: "?P x"
    from a have "?f s x = (Inr y', snd (?f s x))" by (simp add: prod_eq_iff)
    from Suc.hyps(1) [OF n this p] show "?g s y' = (Inr y', s)" .
  qed
  have arr: "sanitizeRecursive s h' y maxDepth d = (Inr y, s)"
    if m: "map_prod arrayResult id (mapItems ?f s items) = (Inr y, s1)"
      and p: "list_all ?P items" for items
  proof -
    from m obtain ys where c: "mapItems ?f s items = (Inr ys, s1)" and y: "y = JArr ys"
      by (cases "mapItems ?f s items") (auto simp: arrayResult_def split: sum.splits)
    from c have "fst (mapItems ?f s items) = Inr ys" by simp
    from mapItems_again [of ?f s ?P ?g items ys, OF keeps IH this p]
    have "mapItems ?g s ys = (Inr ys, s)" .
    then show ?thesis by (simp add: y san_JArr [OF lt] arrayResult_def)
  qed
  have obj: "sanitizeRecursive s h' y maxDepth d = (Inr y, s)"
    if m: "map_prod objectResult id (mapFields ?f s entries) = (Inr y, s1)"
      and p: "list_all (\<lambda>(key, x). if redacts s key then True else ?P x) entries" for entries
  proof (cases "fst (mapFields ?f s entries)")
    case (Inl e)
    with m have "y = JStr ''[Circular Reference]''"
      by (cases "mapFields ?f s entries") (auto simp: objectResult_def)
    then show ?thesis by (simp add: san_prim [OF lt])
  next
    case (Inr es)
    with m have c: "mapFields ?f s entries = (Inr es, s1)" and y: "y = JObj es"
      by (cases "mapFields ?f s entries"; auto simp: objectResult_def)+
    from c have "fst (mapFields ?f s entries) = Inr es" by simp
    from mapFields_again [of s ?f ?P ?g entries es, OF st keeps IH this p]
    have "mapFields ?g s es = (Inr es, s)" .
    then show ?thesis by (simp add: y san_JObj [OF lt] objectResult_def)
  qed
  show ?case
  proof (cases v)
    case (JError name msg st')
    with first lt have y: "y = errorObject name msg st'" by (simp add: san_prim)
    from settled JError lt have "Suc d < maxDepth" and "\<not> redacts s ''name''"
      and "\<not> redacts s ''message''" and "\<not> redacts s ''stack''"
      by (simp_all add: settled_JError)
    then show ?thesis unfolding y by (intro errorObject_again [OF st])
  next
    case (JDate t)
    with first lt show ?thesis by (cases t) (auto simp: san_prim)
  next
    case (JArr items)
    with first settled lt show ?thesis by (intro arr [of items]) (simp_all add: san_JArr settled_JArr)
  next
    case (JObj entries)
    with first settled lt show ?thesis by (intro obj [of entries]) (simp_all add: san_JObj settled_JObj)
  next
    case (JRef a)
    show ?thesis
    proof (cases "deref h a")
      case (CObj entries)
      with JRef first settled lt show ?thesis
        by (intro obj [of entries]) (simp_all add: san_JRef settled_JRef)
    next
      case (CArr items)
      with JRef first settled lt show ?thesis
        by (intro arr [of items]) (simp_all add: san_JRef settled_JRef)
    qed
  qed (use first lt in \<open>auto simp: san_prim\<close>)
qed

text \<open>
  C4 as the code has it.  \<open>sanitize(sanitize(x))\<close> on one sanitizer gives what
  \<open>sanitize(x)\<close> gives (the same value, or the same exception, and the sanitizer as it
  was) whenever no custom pattern carries the flag \<open>g\<close> or \<open>y\<close> (\<open>stateless\<close>) and
  every \<open>Error\<close> instance the walk reaches lies at a depth of at most \<open>maxDepth - 2\<close>
  with \<open>name\<close>, \<open>message\<close>, \<open>stack\<close> not redacted keys (\<open>errorsSettled\<close>); inputs
  without \<open>Error\<close> instances are among them, whatever their nesting.
\<close>

theorem sanitize_idempotent_settled:
  assumes "stateless s" and "errorsSettled s h x maxDepth 0"
  shows "sanitize_twice s h x maxDepth = sanitize s h x maxDepth"
proof -
  obtain r where first: "sanitizeRecursive s h x maxDepth 0 = (r, s)"
    using sanitizeRecursive_keeps [OF assms(1), of h x maxDepth 0]
    by (cases "sanitizeRecursive s h x maxDepth 0") simp
  show ?thesis
  proof (cases r)
    case (Inl e)
    with first show ?thesis by (simp add: sanitize_twice_def sanitize_eq)
  next
    case (Inr y)
    with first have "sanitizeRecursive s h x maxDepth 0 = (Inr y, s)" by simp
    from sanitizeRecursive_again [OF assms(1) this assms(2), of h]
    show ?thesis using first Inr by (simp add: sanitize_twice_def sanitize_eq)
  qed
qed

lemmas pattern_eval = DEFAULT_REDACT_PATTERNS_def regex_def regex_g_def test_def word_ci_def
  joined_ci_def lower_def Let_def

lemma shouldRedact_default:
  "shouldRedact new_DataSanitizer key
     = (fst (some_test DEFAULT_REDACT_PATTERNS key), new_DataSanitizer)"
  by (simp add: shouldRedact_auto new_DataSanitizer_def)

lemma default_keys:
  "shouldRedact new_DataSanitizer ''self'' = (False, new_DataSanitizer)"
  "shouldRedact new_DataSanitizer ''child'' = (False, new_DataSanitizer)"
  "shouldRedact new_DataSanitizer ''parent'' = (False, new_DataSanitizer)"
  "shouldRedact new_DataSanitizer ''err'' = (False, new_DataSanitizer)"
  "shouldRedact new_DataSanitizer ''name'' = (False, new_DataSanitizer)"
  "shouldRedact new_DataSanitizer ''message'' = (False, new_DataSanitizer)"
  "shouldRedact new_DataSanitizer ''stack'' = (False, new_DataSanitizer)"
  "shouldRedact new_DataSanitizer ''user'' = (False, new_DataSanitizer)"
  "shouldRedact new_DataSanitizer ''when'' = (False, new_DataSanitizer)"
  "shouldRedact new_DataSanitizer ''tags'' = (False, new_DataSanitizer)"
  "shouldRedact new_DataSanitizer ''apiToken'' = (True, new_DataSanitizer)"
  "shouldRedact new_DataSanitizer ''Password'' = (True, new_DataSanitizer)"
  "shouldRedact new_DataSanitizer ''x-api-key'' = (True, new_DataSanitizer)"
  by (simp_all add: shouldRedact_default pattern_eval)

lemma default_stateless: "stateless new_DataSanitizer"
  by (simp add: stateless_def new_DataSanitizer_def)

lemma default_redacted: "redactedValue new_DataSanitizer = ''[REDACTED]''"
  by (simp add: new_DataSanitizer_def)

lemma self_reference:
  assumes "stateless s" and "deref h a = CObj [(key, JRef a)]" and "\<not> redacts s key"
    and "key \<noteq> ''__proto__''"
  shows "sanitizeRecursive s h (JRef a) maxDepth d = (Inr (unrolled key (maxDepth - d)), s)"
proof (induction "maxDepth - d" arbitrary: d)
  case 0
  then show ?case by (simp add: san_deep)
next
  case (Suc n)
  then have n: "n = maxDepth - Suc d" and lt: "d < maxDepth" by simp_all
  from Suc.hyps(2) have m: "maxDepth - d = Suc (maxDepth - Suc d)" by simp
  show ?case
    using assms(2-4) Suc.hyps(1) [OF n]
    by (simp add: san_JRef [OF lt] shouldRedact_keeps [OF assms(1)] setOwn_def objectResult_def m)
qed

lemma stringsOf_unrolled: "stringsOf (unrolled key n) = [''[Max Depth Reached]'']"
  by (induction n) simp_all

lemma foldr_max_le: "(\<And>y. y \<in> set ys \<Longrightarrow> f y \<le> n) \<Longrightarrow> foldr max (map f ys) 0 \<le> (n::nat)"
  by (induction ys) auto

lemma mapItems_nesting:
  assumes "\<forall>s x y'. fst (f s x) = Inr y' \<longrightarrow> nesting y' \<le> n"
  shows "fst (mapItems f s items) = Inr ys \<Longrightarrow> y \<in> set ys \<Longrightarrow> nesting y \<le> n"
proof (induction items arbitrary: s ys)
  case Nil
  then show ?case by auto
next
  case (Cons x items)
  obtain r s1 where fx: "f s x = (r, s1)" by (cases "f s x")
  obtain rs s2 where m: "mapItems f s1 items = (rs, s2)" by (cases "mapItems f s1 items")
  from Cons.prems(1) obtain y0 ys' where r: "r = Inr y0" and rs: "rs = Inr ys'" and ys: "ys = y0 # ys'"
    by (auto simp: fx m split: sum.splits)
  from assms fx r have "nesting y0 \<le> n" by (metis fst_conv)
  moreover from Cons.IH [of s1 ys'] m rs have "y \<in> set ys' \<Longrightarrow> nesting y \<le> n" by simp
  ultimately show ?case using Cons.prems(2) ys by auto
qed

lemma mapFields_nesting:
  assumes "\<forall>s x y'. fst (f s x) = Inr y' \<longrightarrow> nesting y' \<le> n"
  shows "fst (mapFields f s entries) = Inr es \<Longrightarrow> (k, y) \<in> set es \<Longrightarrow> nesting y \<le> n"
proof (induction entries arbitrary: s es)
  case Nil
  then show ?case by auto
next
  case (Cons kv entries)
  obtain key v where kv: "kv = (key, v)" by (cases kv)
  obtain b s1 where red: "shouldRedact s key = (b, s1)" by (cases "shouldRedact s key")
  show ?case
  proof (cases b)
    case True
    obtain rs s2 where m: "mapFields f s1 entries = (rs, s2)" by (cases "mapFields f s1 entries")
    from Cons.prems(1) obtain es' where rs: "rs = Inr es'"
      and es: "es = setOwn key (JStr (redactedValue s1)) es'"
      by (auto simp: kv red True m split: sum.splits)
    from Cons.IH [of s1 es'] m rs have "(k, y) \<in> set es' \<Longrightarrow> nesting y \<le> n" by simp
    with Cons.prems(2) es show ?thesis by (auto simp: setOwn_def split: if_splits)
  next
    case False
    obtain r s2 where fx: "f s1 v = (r, s2)" by (cases "f s1 v")
    obtain rs s3 where m: "mapFields f s2 entries = (rs, s3)" by (cases "mapFields f s2 entries")
    from Cons.prems(1) obtain v' es' where r: "r = Inr v'" and rs: "rs = Inr es'"
      and es: "es = setOwn key v' es'"
      by (auto simp: kv red False fx m split: sum.splits)
    from assms fx r have "nesting v' \<le> n" by (metis fst_conv)
    moreover from Cons.IH [of s2 es'] m rs have "(k, y) \<in> set es' \<Longrightarrow> nesting y \<le> n" by simp
    ultimately show ?thesis using Cons.prems(2) es by (auto simp: setOwn_def split: if_splits)
  qed
qed

text \<open>
  For every input, cyclic or not, and whatever state the patterns keep, the walk is
  bounded: what it returns is nested at most \<open>maxDepth\<close> levels deep.
\<close>

lemma sanitizeRecursive_nesting:
  "fst (sanitizeRecursive s h v maxDepth d) = Inr y \<Longrightarrow> nesting y \<le> maxDepth - d"
proof (induction "maxDepth - d" arbitrary: s v d y)
  case 0
  then show ?case by (auto simp: san_deep)
next
  case (Suc n)
  then have n: "n = maxDepth - Suc d" and lt: "d < maxDepth" by simp_all
  let ?f = "\<lambda>s' x. sanitizeRecursive s' h x maxDepth (Suc d)"
  have IH: "\<forall>s x y'. fst (?f s x) = Inr y' \<longrightarrow> nesting y' \<le> n"
    using Suc.hyps(1) [OF n] n by simp
  have m: "maxDepth - d = Suc n" using Suc.hyps(2) by simp
  have arr: "nesting y \<le> Suc n" if a: "fst (map_prod arrayResult id (mapItems ?f s items)) = Inr y" for items
  proof -
    from a obtain ys where c: "fst (mapItems ?f s items) = Inr ys" and y: "y = JArr ys"
      by (cases "mapItems ?f s items") (auto simp: arrayResult_def split: sum.splits)
    have "foldr max (map nesting ys) 0 \<le> n"
      using mapItems_nesting [of ?f n s items ys, OF IH c] by (intro foldr_max_le) blast
    with y show ?thesis by simp
  qed
  have obj: "nesting y \<le> Suc n" if a: "fst (map_prod objectResult id (mapFields ?f s entries)) = Inr y" for entries
  proof (cases "fst (mapFields ?f s entries)")
    case (Inl e)
    with a show ?thesis by (cases "mapFields ?f s entries") (auto simp: objectResult_def)
  next
    case (Inr es)
    with a have y: "y = JObj es" by (cases "mapFields ?f s entries") (auto simp: objectResult_def)
    have "foldr max (map (\<lambda>(key, v). nesting v) es) 0 \<le> n"
    proof (intro foldr_max_le)
      fix kv assume kv: "kv \<in> set es"
      obtain k0 v0 where eq: "kv = (k0, v0)" by (cases kv)
      from mapFields_nesting [of ?f n s entries es k0 v0, OF IH Inr] kv eq
      show "(case kv of (key, v) \<Rightarrow> nesting v) \<le> n" by simp
    qed
    with y show ?thesis by simp
  qed
  show ?case
    unfolding m
  proof (cases v)
    case (JError name msg st)
    with Suc.prems lt show "nesting y \<le> Suc n" by (auto simp: san_prim errorObject_def split: option.splits)
  next
    case (JDate t)
    with Suc.prems lt show "nesting y \<le> Suc n" by (cases t) (auto simp: san_prim)
  next
    case (JArr items)
    with Suc.prems lt show "nesting y \<le> Suc n" by (intro arr [of items]) (simp add: san_JArr)
  next
    case (JObj entries)
    with Suc.prems lt show "nesting y \<le> Suc n" by (intro obj [of entries]) (simp add: san_JObj)
  next
    case (JRef a)
    with Suc.prems lt show "nesting y \<le> Suc n"
      by (cases "deref h a") (auto simp: san_JRef intro: arr obj)
  qed (use Suc.prems lt in \<open>auto simp: san_prim\<close>)
qed

lemma sanitize_nesting: "fst (sanitize s h v maxDepth) = Inr y \<Longrightarrow> nesting y \<le> maxDepth"
  using sanitizeRecursive_nesting [of s h v maxDepth 0 y] by (simp add: sanitize_eq)

lemmas san_eval = sanitize_eq san_prim san_JArr san_JObj san_JRef san_deep
  errorObject_def arrayResult_def objectResult_def setOwn_def default_keys default_redacted

lemma shouldRedact_redactedValue: "redactedValue (snd (shouldRedact s key)) = redactedValue s"
  by (simp add: shouldRedact_def Let_def split: prod.splits)

lemma mapItems_markerFree:
  assumes "\<forall>s x. redactedValue s = r \<and> P x \<longrightarrow>
             (\<exists>y. fst (f s x) = Inr y \<and> m \<notin> set (stringsOf y)) \<and> redactedValue (snd (f s x)) = r"
  shows "redactedValue s = r \<Longrightarrow> list_all P items
         \<Longrightarrow> (\<exists>ys. fst (mapItems f s items) = Inr ys \<and> (\<forall>y \<in> set ys. m \<notin> set (stringsOf y)))
             \<and> redactedValue (snd (mapItems f s items)) = r"
proof (induction items arbitrary: s)
  case Nil
  then show ?case by simp
next
  case (Cons x items)
  obtain q s1 where fx: "f s x = (q, s1)" by (cases "f s x")
  from Cons.prems(2) have px: "P x" and prest: "list_all P items" by simp_all
  from assms Cons.prems(1) px fx obtain y where q: "q = Inr y" and y: "m \<notin> set (stringsOf y)"
    and s1: "redactedValue s1 = r"
    by (metis fst_conv snd_conv)
  obtain qs s2 where rest: "mapItems f s1 items = (qs, s2)" by (cases "mapItems f s1 items")
  from Cons.IH [of s1] s1 prest rest obtain ys where qs: "qs = Inr ys"
    and ys: "\<forall>y \<in> set ys. m \<notin> set (stringsOf y)" and s2: "redactedValue s2 = r"
    by auto
  show ?case by (simp add: fx q rest qs y ys s2)
qed

lemma mapFields_markerFree:
  assumes "\<forall>s x. redactedValue s = r \<and> P x \<longrightarrow>
             (\<exists>y. fst (f s x) = Inr y \<and> m \<notin> set (stringsOf y)) \<and> redactedValue (snd (f s x)) = r"
    and "r \<noteq> m"
  shows "redactedValue s = r \<Longrightarrow> list_all (\<lambda>(key, x). P x) entries
         \<Longrightarrow> (\<exists>es. fst (mapFields f s entries) = Inr es \<and> (\<forall>(k, y) \<in> set es. m \<notin> set (stringsOf y)))
             \<and> redactedValue (snd (mapFields f s entries)) = r"
proof (induction entries arbitrary: s)
  case Nil
  then show ?case by simp
next
  case (Cons kv entries)
  obtain key v where kv: "kv = (key, v)" by (cases kv)
  obtain b s1 where red: "shouldRedact s key = (b, s1)" by (cases "shouldRedact s key")
  from shouldRedact_redactedValue [of s key] red Cons.prems(1) have s1: "redactedValue s1 = r" by simp
  from Cons.prems(2) kv have pv: "P v" and prest: "list_all (\<lambda>(key, x). P x) entries" by simp_all
  show ?case
  proof (cases b)
    case True
    obtain qs s2 where rest: "mapFields f s1 entries = (qs, s2)" by (cases "mapFields f s1 entries")
    from Cons.IH [of s1] s1 prest rest obtain es where qs: "qs = Inr es"
      and es: "\<forall>(k, y) \<in> set es. m \<notin> set (stringsOf y)" and s2: "redactedValue s2 = r"
      by auto
    show ?thesis
      using assms(2) es by (auto simp: kv red True rest qs s1 s2 setOwn_def)
  next
    case False
    obtain q s2 where fx: "f s1 v = (q, s2)" by (cases "f s1 v")
    from assms(1) s1 pv fx obtain y where q: "q = Inr y" and y: "m \<notin> set (stringsOf y)"
      and s2: "redactedValue s2 = r"
      by (metis fst_conv snd_conv)
    obtain qs s3 where rest: "mapFields f s2 entries = (qs, s3)" by (cases "mapFields f s2 entries")
    from Cons.IH [of s2] s2 prest rest obtain es where qs: "qs = Inr es"
      and es: "\<forall>(k, y) \<in> set es. m \<notin> set (stringsOf y)" and s3: "redactedValue s3 = r"
      by auto
    show ?thesis
      using y es by (auto simp: kv red False fx q rest qs s3 setOwn_def)
  qed
qed

text \<open>
  No cycle is ever detected.  On every input from which nothing throws and which does
  not hold the text \<open>'[Circular Reference]'\<close> already, cyclic or not, the walk returns a
  value in which that text does not occur.
\<close>

lemma no_cycle_detection:
  assumes "redactedValue s \<noteq> ''[Circular Reference]''" and "markerFree h v maxDepth d"
  shows "(\<exists>y. fst (sanitizeRecursive s h v maxDepth d) = Inr y
              \<and> ''[Circular Reference]'' \<notin> set (stringsOf y))
         \<and> redactedValue (snd (sanitizeRecursive s h v maxDepth d)) = redactedValue s"
  using assms
proof (induction "maxDepth - d" arbitrary: s v d)
  case 0
  then show ?case by (simp add: san_deep)
next
  case (Suc n)
  then have n: "n = maxDepth - Suc d" and lt: "d < maxDepth" by simp_all
  let ?m = "''[Circular Reference]''"
  let ?r = "redactedValue s"
  let ?f = "\<lambda>s' x. sanitizeRecursive s' h x maxDepth (Suc d)"
  let ?P = "\<lambda>x. markerFree h x maxDepth (Suc d)"
  have IH: "\<forall>s' x. redactedValue s' = ?r \<and> ?P x \<longrightarrow>
             (\<exists>y. fst (?f s' x) = Inr y \<and> ?m \<notin> set (stringsOf y)) \<and> redactedValue (snd (?f s' x)) = ?r"
    using Suc.hyps(1) [OF n] Suc.prems(1) by simp
  note free = Suc.prems(2)
  have arr: "(\<exists>y. fst (map_prod arrayResult id (mapItems ?f s items)) = Inr y \<and> ?m \<notin> set (stringsOf y))
             \<and> redactedValue (snd (map_prod arrayResult id (mapItems ?f s items))) = ?r"
    if "list_all ?P items" for items
    using mapItems_markerFree [of ?r ?P ?f ?m s items, OF IH _ that]
    by (cases "mapItems ?f s items") (auto simp: arrayResult_def)
  have obj: "(\<exists>y. fst (map_prod objectResult id (mapFields ?f s entries)) = Inr y \<and> ?m \<notin> set (stringsOf y))
             \<and> redactedValue (snd (map_prod objectResult id (mapFields ?f s entries))) = ?r"
    if "list_all (\<lambda>(key, x). ?P x) entries" for entries
    using mapFields_markerFree [of ?r ?P ?f ?m s entries, OF IH Suc.prems(1) _ that]
    by (cases "mapFields ?f s entries") (auto simp: objectResult_def)
  show ?case
  proof (cases v)
    case (JStr t)
    with free lt show ?thesis by (subst (asm) markerFree.simps) (simp add: san_prim)
  next
    case (JError name msg st)
    with free lt show ?thesis
      by (subst (asm) markerFree.simps) (auto simp: san_prim errorObject_def split: option.splits)
  next
    case (JDate t)
    with free lt show ?thesis
      by (subst (asm) markerFree.simps) (cases t; simp add: san_prim)
  next
    case (JArr items)
    with free lt have "list_all ?P items" by (subst (asm) markerFree.simps) simp
    from arr [OF this] JArr lt show ?thesis by (simp add: san_JArr)
  next
    case (JObj entries)
    with free lt have "list_all (\<lambda>(key, x). ?P x) entries" by (subst (asm) markerFree.simps) simp
    from obj [OF this] JObj lt show ?thesis by (simp add: san_JObj)
  next
    case (JRef a)
    show ?thesis
    proof (cases "deref h a")
      case (CObj entries)
      with JRef free lt have "list_all (\<lambda>(key, x). ?P x) entries"
        by (subst (asm) markerFree.simps) simp
      from obj [OF this] JRef CObj lt show ?thesis by (simp add: san_JRef)
    next
      case (CArr items)
      with JRef free lt have "list_all ?P items" by (subst (asm) markerFree.simps) simp
      from arr [OF this] JRef CArr lt show ?thesis by (simp add: san_JRef)
    qed
  qed (use lt in \<open>simp_all add: san_prim\<close>)
qed

lemma sanitize_no_cycle_detection:
  assumes "redactedValue s \<noteq> ''[Circular Reference]''" and "markerFree h v maxDepth 0"
  shows "\<exists>y. fst (sanitize s h v maxDepth) = Inr y \<and> ''[Circular Reference]'' \<notin> set (stringsOf y)"
  using no_cycle_detection [OF assms] by (simp add: sanitize_eq)

text \<open>
  C2. The walk compares no references: it follows a cycle until \<open>maxDepth\<close>.  An object
  that refers to itself (\<open>o.self = o\<close>), sanitized by a default sanitizer with
  \<open>maxDepth = 3\<close> and with the default \<open>maxDepth = 10\<close>, two objects that refer to each
  other, and a self-referencing object with a second key: every result is made of nested
  objects that end in \<open>'[Max Depth Reached]'\<close>, and the strings in it are listed:
  \<open>'[Circular Reference]'\<close> is not among them.  (That marker is what the \<open>catch\<close> of
  the object case returns, and only an exception reaches it.)
\<close>

theorem cycle_gets_depth_marker:
  "fst (sanitize new_DataSanitizer [CObj [(''self'', JRef 0)]] (JRef 0) 3)
     = Inr (JObj [(''self'', JObj [(''self'', JObj [(''self'', JStr ''[Max Depth Reached]'')])])])
   \<and> map_sum id stringsOf (fst (sanitize new_DataSanitizer [CObj [(''self'', JRef 0)]] (JRef 0) 3))
     = Inr [''[Max Depth Reached]'']
   \<and> fst (sanitize new_DataSanitizer [CObj [(''self'', JRef 0)]] (JRef 0) 10)
     = Inr (unrolled ''self'' 10)
   \<and> map_sum id stringsOf (fst (sanitize new_DataSanitizer [CObj [(''self'', JRef 0)]] (JRef 0) 10))
     = Inr [''[Max Depth Reached]'']
   \<and> fst (sanitize new_DataSanitizer [CObj [(''child'', JRef 1)], CObj [(''parent'', JRef 0)]] (JRef 0) 3)
     = Inr (JObj [(''child'', JObj [(''parent'', JObj [(''child'', JStr ''[Max Depth Reached]'')])])])
   \<and> map_sum id stringsOf
         (fst (sanitize new_DataSanitizer [CObj [(''child'', JRef 1)], CObj [(''parent'', JRef 0)]] (JRef 0) 3))
     = Inr [''[Max Depth Reached]'']
   \<and> fst (sanitize new_DataSanitizer
            [CObj [(''user'', JStr ''ann''), (''self'', JRef 0)]] (JRef 0) 2)
     = Inr (JObj [(''user'', JStr ''ann''),
                  (''self'', JObj [(''user'', JStr ''[Max Depth Reached]''),
                                   (''self'', JStr ''[Max Depth Reached]'')])])
   \<and> map_sum id stringsOf
         (fst (sanitize new_DataSanitizer
                 [CObj [(''user'', JStr ''ann''), (''self'', JRef 0)]] (JRef 0) 2))
     = Inr [''ann'', ''[Max Depth Reached]'', ''[Max Depth Reached]'']"
proof -
  have "redacts new_DataSanitizer ''self'' = False"
    by (simp add: redacts_def default_keys)
  then have "sanitizeRecursive new_DataSanitizer [CObj [(''self'', JRef 0)]] (JRef 0) 10 0
          = (Inr (unrolled ''self'' (10 - 0)), new_DataSanitizer)"
    by (intro self_reference default_stateless) (simp_all add: deref_def)
  then have ten: "fst (sanitize new_DataSanitizer [CObj [(''self'', JRef 0)]] (JRef 0) 10)
     = Inr (unrolled ''self'' 10)"
    by (simp add: sanitize_eq)
  have three: "fst (sanitize new_DataSanitizer [CObj [(''self'', JRef 0)]] (JRef 0) 3)
     = Inr (JObj [(''self'', JObj [(''self'', JObj [(''self'', JStr ''[Max Depth Reached]'')])])])"
    by (simp add: san_eval deref_def)
  have two: "fst (sanitize new_DataSanitizer [CObj [(''child'', JRef 1)], CObj [(''parent'', JRef 0)]] (JRef 0) 3)
     = Inr (JObj [(''child'', JObj [(''parent'', JObj [(''child'', JStr ''[Max Depth Reached]'')])])])"
    by (simp add: san_eval deref_def)
  have keys: "fst (sanitize new_DataSanitizer
            [CObj [(''user'', JStr ''ann''), (''self'', JRef 0)]] (JRef 0) 2)
     = Inr (JObj [(''user'', JStr ''ann''),
                  (''self'', JObj [(''user'', JStr ''[Max Depth Reached]''),
                                   (''self'', JStr ''[Max Depth Reached]'')])])"
    by (simp add: san_eval deref_def)
  show ?thesis
    unfolding ten three two keys by (simp add: stringsOf_unrolled)
qed

lemma settled_prim:
  "errorsSettled s h JUndefined maxDepth d"
  "errorsSettled s h JNull maxDepth d"
  "errorsSettled s h (JBool b) maxDepth d"
  "errorsSettled s h (JNum n) maxDepth d"
  "errorsSettled s h (JStr t) maxDepth d"
  "errorsSettled s h (JDate iso8601) maxDepth d"
  by (subst errorsSettled.simps, simp)+

lemma ssn_keys:
  "fst (some_test DEFAULT_REDACT_PATTERNS ''user'') = False"
  "fst (some_test DEFAULT_REDACT_PATTERNS ''ssn'') = False"
  "fst (some_test DEFAULT_REDACT_PATTERNS ''apiToken'') = True"
  "fst (some_test DEFAULT_REDACT_PATTERNS ''err'') = False"
  "fst (some_test DEFAULT_REDACT_PATTERNS ''name'') = False"
  "fst (some_test DEFAULT_REDACT_PATTERNS ''message'') = False"
  "fst (some_test DEFAULT_REDACT_PATTERNS ''stack'') = False"
  "fst (some_test DEFAULT_REDACT_PATTERNS ''when'') = False"
  "fst (some_test DEFAULT_REDACT_PATTERNS ''tags'') = False"
  by (simp_all add: pattern_eval)

text \<open>
  A sanitizer with the custom pattern \<open>/ssn/i\<close>, on an object with a key for the default
  patterns, a key for the custom pattern, an \<open>Error\<close>, a \<open>Date\<close> and an array.
\<close>

theorem sanitize_idempotent_settled_witness:
  "sanitize_twice (new_DataSanitizer\<lparr>customPatterns := [regex (word_ci ''ssn'')]\<rparr>) []
     (JObj [(''user'', JStr ''ann''),
            (''apiToken'', JStr ''s3cr3t''),
            (''ssn'', JStr ''078-05-1120''),
            (''err'', JError ''TypeError'' ''boom'' None),
            (''when'', JDate (Some ''2024-05-01T10:00:00.000Z'')),
            (''tags'', JArr [JNum 1, JNull])]) 10
   = (Inr (JObj [(''user'', JStr ''ann''),
            (''apiToken'', JStr ''[REDACTED]''),
            (''ssn'', JStr ''[REDACTED]''),
            (''err'', JObj [(''name'', JStr ''TypeError''), (''message'', JStr ''boom''),
                            (''stack'', JUndefined)]),
            (''when'', JStr ''2024-05-01T10:00:00.000Z''),
            (''tags'', JArr [JNum 1, JNull])]),
      new_DataSanitizer\<lparr>customPatterns := [regex (word_ci ''ssn'')]\<rparr>)"
proof -
  let ?s = "new_DataSanitizer\<lparr>customPatterns := [regex (word_ci ''ssn'')]\<rparr>"
  let ?x = "JObj [(''user'', JStr ''ann''),
            (''apiToken'', JStr ''s3cr3t''),
            (''ssn'', JStr ''078-05-1120''),
            (''err'', JError ''TypeError'' ''boom'' None),
            (''when'', JDate (Some ''2024-05-01T10:00:00.000Z'')),
            (''tags'', JArr [JNum 1, JNull])]"
  let ?y = "JObj [(''user'', JStr ''ann''),
            (''apiToken'', JStr ''[REDACTED]''),
            (''ssn'', JStr ''[REDACTED]''),
            (''err'', JObj [(''name'', JStr ''TypeError''), (''message'', JStr ''boom''),
                            (''stack'', JUndefined)]),
            (''when'', JStr ''2024-05-01T10:00:00.000Z''),
            (''tags'', JArr [JNum 1, JNull])]"
  have st: "stateless ?s"
    by (simp add: stateless_def regex_def)
  have auto: "autoRedact ?s" and r: "redactedValue ?s = ''[REDACTED]''"
    and c: "customPatterns ?s = [regex (word_ci ''ssn'')]"
    by (simp_all add: new_DataSanitizer_def)
  have keys:
    "shouldRedact ?s ''user'' = (False, ?s)"
    "shouldRedact ?s ''apiToken'' = (True, ?s)"
    "shouldRedact ?s ''ssn'' = (True, ?s)"
    "shouldRedact ?s ''err'' = (False, ?s)"
    "shouldRedact ?s ''name'' = (False, ?s)"
    "shouldRedact ?s ''message'' = (False, ?s)"
    "shouldRedact ?s ''stack'' = (False, ?s)"
    "shouldRedact ?s ''when'' = (False, ?s)"
    "shouldRedact ?s ''tags'' = (False, ?s)"
    by (simp_all add: shouldRedact_auto [OF auto] ssn_keys c)
       (simp_all add: regex_def test_def word_ci_def lower_def Let_def)
  have first: "sanitize ?s [] ?x 10 = (Inr ?y, ?s)"
    by (simp add: sanitize_eq san_prim san_JArr san_JObj san_deep errorObject_def arrayResult_def
          objectResult_def setOwn_def keys r)
  have settled: "errorsSettled ?s [] ?x 10 0"
    by (simp add: settled_JObj settled_JArr settled_JError settled_prim redacts_def keys)
  from sanitize_idempotent_settled [OF st settled] first show ?thesis by simp
qed

lemma foo_keys:
  "fst (some_test DEFAULT_REDACT_PATTERNS ''foo'') = False"
  "fst (some_test DEFAULT_REDACT_PATTERNS ''fooo'') = False"
  "fst (some_test DEFAULT_REDACT_PATTERNS ''foo_'') = False"
  "fst (some_test DEFAULT_REDACT_PATTERNS ''c'') = False"
  by (simp_all add: pattern_eval)

text \<open>
  C4 as the specification states it fails, in two ways.  An \<open>Error\<close> one level above
  \<open>maxDepth\<close> becomes an object on the first pass, and the second pass replaces the
  values of that object by the depth marker.  And with the custom pattern \<open>/foo/g\<close>,
  whose \<open>test\<close> keeps \<open>lastIndex\<close> from one key to the next, the first pass leaves
  the key \<open>fooo\<close> as it is and the second pass redacts it, on an input without any
  \<open>Error\<close> instance.
\<close>

theorem sanitize_twice_differs:
  "sanitize new_DataSanitizer [] (JObj [(''err'', JError ''TypeError'' ''boom'' None)]) 2
     = (Inr (JObj [(''err'', JObj [(''name'', JStr ''TypeError''), (''message'', JStr ''boom''),
                                  (''stack'', JUndefined)])]), new_DataSanitizer)
   \<and> sanitize_twice new_DataSanitizer [] (JObj [(''err'', JError ''TypeError'' ''boom'' None)]) 2
     = (Inr (JObj [(''err'', JObj [(''name'', JStr ''[Max Depth Reached]''),
                                  (''message'', JStr ''[Max Depth Reached]''),
                                  (''stack'', JStr ''[Max Depth Reached]'')])]), new_DataSanitizer)
   \<and> sanitize_twice new_DataSanitizer [] (JObj [(''err'', JError ''TypeError'' ''boom'' None)]) 2
     \<noteq> sanitize new_DataSanitizer [] (JObj [(''err'', JError ''TypeError'' ''boom'' None)]) 2
   \<and> fst (sanitize (new_DataSanitizer\<lparr>customPatterns := [regex_g (literal ''foo'')]\<rparr>) []
        (JObj [(''foo'', JNum 1), (''fooo'', JObj [(''c'', JNum 1)]), (''foo_'', JNum 2)]) 10)
     = Inr (JObj [(''foo'', JStr ''[REDACTED]''), (''fooo'', JObj [(''c'', JNum 1)]),
                  (''foo_'', JStr ''[REDACTED]'')])
   \<and> fst (sanitize_twice (new_DataSanitizer\<lparr>customPatterns := [regex_g (literal ''foo'')]\<rparr>) []
        (JObj [(''foo'', JNum 1), (''fooo'', JObj [(''c'', JNum 1)]), (''foo_'', JNum 2)]) 10)
     = Inr (JObj [(''foo'', JStr ''[REDACTED]''), (''fooo'', JStr ''[REDACTED]''),
                  (''foo_'', JStr ''[REDACTED]'')])
   \<and> fst (sanitize_twice (new_DataSanitizer\<lparr>customPatterns := [regex_g (literal ''foo'')]\<rparr>) []
        (JObj [(''foo'', JNum 1), (''fooo'', JObj [(''c'', JNum 1)]), (''foo_'', JNum 2)]) 10)
     \<noteq> fst (sanitize (new_DataSanitizer\<lparr>customPatterns := [regex_g (literal ''foo'')]\<rparr>) []
        (JObj [(''foo'', JNum 1), (''fooo'', JObj [(''c'', JNum 1)]), (''foo_'', JNum 2)]) 10)"
proof -
  have err: "sanitize new_DataSanitizer [] (JObj [(''err'', JError ''TypeError'' ''boom'' None)]) 2
     = (Inr (JObj [(''err'', JObj [(''name'', JStr ''TypeError''), (''message'', JStr ''boom''),
                                  (''stack'', JUndefined)])]), new_DataSanitizer)"
    by (simp add: san_eval)
  have err2: "sanitize_twice new_DataSanitizer [] (JObj [(''err'', JError ''TypeError'' ''boom'' None)]) 2
     = (Inr (JObj [(''err'', JObj [(''name'', JStr ''[Max Depth Reached]''),
                                  (''message'', JStr ''[Max Depth Reached]''),
                                  (''stack'', JStr ''[Max Depth Reached]'')])]), new_DataSanitizer)"
    by (simp add: sanitize_twice_def err) (simp add: san_eval)
  have foo: "sanitize (new_DataSanitizer\<lparr>customPatterns := [regex_g (literal ''foo'')]\<rparr>) []
        (JObj [(''foo'', JNum 1), (''fooo'', JObj [(''c'', JNum 1)]), (''foo_'', JNum 2)]) 10
     = (Inr (JObj [(''foo'', JStr ''[REDACTED]''), (''fooo'', JObj [(''c'', JNum 1)]),
                  (''foo_'', JStr ''[REDACTED]'')]),
        new_DataSanitizer\<lparr>customPatterns := [regex_g (literal ''foo'')\<lparr>lastIndex := 3\<rparr>]\<rparr>)"
    by (simp add: sanitize_eq san_prim san_JObj san_deep arrayResult_def objectResult_def setOwn_def
          shouldRedact_auto foo_keys new_DataSanitizer_def regex_g_def literal_def test_def Let_def)
  have foo2: "sanitize (new_DataSanitizer\<lparr>customPatterns := [regex_g (literal ''foo'')\<lparr>lastIndex := 3\<rparr>]\<rparr>) []
        (JObj [(''foo'', JStr ''[REDACTED]''), (''fooo'', JObj [(''c'', JNum 1)]),
                  (''foo_'', JStr ''[REDACTED]'')]) 10
     = (Inr (JObj [(''foo'', JStr ''[REDACTED]''), (''fooo'', JStr ''[REDACTED]''),
                  (''foo_'', JStr ''[REDACTED]'')]),
        new_DataSanitizer\<lparr>customPatterns := [regex_g (literal ''foo'')]\<rparr>)"
    by (simp add: sanitize_eq san_prim san_JObj san_deep arrayResult_def objectResult_def setOwn_def
          shouldRedact_auto foo_keys new_DataSanitizer_def regex_g_def literal_def test_def Let_def)
  from err err2 foo foo2 show ?thesis by (simp add: sanitize_twice_def)
qed
section \<open>Fingerprints: facts\<close>

lemma replaceAll_append:
  assumes same: "\<And>p u v. pre = v @ u \<Longrightarrow> u \<noteq> [] \<Longrightarrow> m p (u @ rest) = m p u"
    and inside: "\<And>p u v n. pre = v @ u \<Longrightarrow> m p u = Some n \<Longrightarrow> n \<le> length u"
  shows "replaceAll m r prev (pre @ rest)
           = replaceAll m r prev pre
             @ replaceAll m r (case pre of [] \<Rightarrow> prev | _ \<Rightarrow> Some (last pre)) rest"
  using assms
proof (induction pre arbitrary: prev rule: length_induct)
  case (1 pre)
  note IH = "1.IH" and same = "1.prems"(1) and inside = "1.prems"(2)
  show ?case
  proof (cases pre)
    case Nil
    then show ?thesis by simp
  next
    case (Cons c cs)
    have m_eq: "m prev ((c # cs) @ rest) = m prev (c # cs)"
      using same [of "[]" "c # cs" prev] Cons by simp
    have sub: "replaceAll m r P (suf @ rest)
                 = replaceAll m r P suf
                   @ replaceAll m r (case suf of [] \<Rightarrow> P | _ \<Rightarrow> Some (last suf)) rest"
      if "pre = v @ suf" and "length suf < length pre" for suf v P
    proof -
      have a: "\<And>p u w. suf = w @ u \<Longrightarrow> u \<noteq> [] \<Longrightarrow> m p (u @ rest) = m p u"
        using same that(1) by (metis append.assoc)
      have b: "\<And>p u w n. suf = w @ u \<Longrightarrow> m p u = Some n \<Longrightarrow> n \<le> length u"
        using inside that(1) by (metis append.assoc)
      from IH that(2) a b show ?thesis by blast
    qed
    show ?thesis
    proof (cases "m prev (c # cs)")
      case None
      have "replaceAll m r (Some c) (cs @ rest)
              = replaceAll m r (Some c) cs
                @ replaceAll m r (case cs of [] \<Rightarrow> Some c | _ \<Rightarrow> Some (last cs)) rest"
        using sub [of "[c]" cs "Some c"] Cons by simp
      moreover have "(case cs of [] \<Rightarrow> Some c | _ \<Rightarrow> Some (last cs)) = Some (last (c # cs))"
        by (cases cs) simp_all
      ultimately show ?thesis using None m_eq Cons by simp
    next
      case (Some n)
      show ?thesis
      proof (cases n)
        case 0
        have "replaceAll m r (Some c) (cs @ rest)
                = replaceAll m r (Some c) cs
                  @ replaceAll m r (case cs of [] \<Rightarrow> Some c | _ \<Rightarrow> Some (last cs)) rest"
          using sub [of "[c]" cs "Some c"] Cons by simp
        moreover have "(case cs of [] \<Rightarrow> Some c | _ \<Rightarrow> Some (last cs)) = Some (last (c # cs))"
          by (cases cs) simp_all
        ultimately show ?thesis using Some 0 m_eq Cons by simp
      next
        case (Suc k)
        from inside [of "[]" "c # cs" prev n] Some Suc Cons have k: "k \<le> length cs" by simp
        let ?P = "Some (last (c # take k cs))"
        have split: "pre = (c # take k cs) @ drop k cs" using Cons by simp
        have "replaceAll m r ?P (drop k cs @ rest)
                = replaceAll m r ?P (drop k cs)
                  @ replaceAll m r (case drop k cs of [] \<Rightarrow> ?P | _ \<Rightarrow> Some (last (drop k cs))) rest"
          using sub [OF split, of ?P] Cons by simp
        moreover have "(case drop k cs of [] \<Rightarrow> ?P | _ \<Rightarrow> Some (last (drop k cs)))
                         = Some (last (c # cs))"
        proof (cases "drop k cs")
          case Nil
          with k have "take k cs = cs" by simp
          with Nil show ?thesis by simp
        next
          case (Cons d ds)
          then have "drop k cs \<noteq> []" by simp
          then have "last (drop k cs) = last cs" by simp
          moreover from Cons have "cs \<noteq> []" by auto
          ultimately show ?thesis using Cons by simp
        qed
        ultimately show ?thesis
          using Some Suc m_eq Cons k by simp
      qed
    qed
  qed
qed

lemma replaceAll_untouched:
  assumes "\<And>p u v. s = v @ u \<Longrightarrow> m p u = None"
  shows "replaceAll m r prev s = s"
  using assms
proof (induction s arbitrary: prev)
  case Nil
  then show ?case by simp
next
  case (Cons c cs)
  have "m prev (c # cs) = None" using Cons.prems [of "[]" "c # cs"] by simp
  moreover have "replaceAll m r (Some c) cs = cs"
    using Cons.IH Cons.prems by (metis append_Cons)
  ultimately show ?case by simp
qed

lemma replaceAll_match_prefix:
  assumes "x \<noteq> []" and "m prev (x @ post) = Some (length x)"
  shows "replaceAll m r prev (x @ post) = r @ replaceAll m r (Some (last x)) post"
proof -
  from assms(1) obtain c cs where x: "x = c # cs" by (cases x) auto
  with assms(2) show ?thesis by simp
qed

lemma replaceAll_prev:
  assumes "\<And>u. m p1 u = m p2 u"
  shows "replaceAll m r p1 s = replaceAll m r p2 s"
  using assms by (cases s) simp_all

lemma fitsShape_length: "fitsShape shape s \<Longrightarrow> length shape \<le> length s"
  by (induction shape s rule: fitsShape.induct) auto

lemma fitsShape_append: "length shape \<le> length u \<Longrightarrow> fitsShape shape (u @ rest) = fitsShape shape u"
  by (induction shape u rule: fitsShape.induct) auto

lemma fitsShape_nth:
  "fitsShape shape s \<Longrightarrow> i < length shape \<Longrightarrow> classOf (shape ! i) (s ! i)"
proof (induction shape s arbitrary: i rule: fitsShape.induct)
  case (3 t ts c cs)
  then show ?case by (cases i) auto
qed auto

lemma uuidShape_classes: "t \<in> set uuidShape \<Longrightarrow> t = CHR ''h'' \<or> t = CHR ''-''"
  by (auto simp: uuidShape_def)

lemma uuid_class: "i < length uuidShape \<Longrightarrow> classOf (uuidShape ! i) c \<Longrightarrow> isHex c \<or> c = CHR ''-''"
  using uuidShape_classes [of "uuidShape ! i"] by (auto simp: classOf_def)

lemma length_uuidShape: "length uuidShape = 36"
  by (simp add: uuidShape_def)

text \<open>A text that ends in a neutral character holds every UUID match that starts in it.\<close>

lemma uuid_confined:
  assumes "u \<noteq> []" and "uuidNeutral (last u)"
  shows "matchShape uuidShape p (u @ rest) = matchShape uuidShape p u"
proof (cases "length uuidShape \<le> length u")
  case True
  then show ?thesis by (simp add: matchShape_def fitsShape_append)
next
  case False
  then have short: "length u - 1 < length uuidShape" and "\<not> fitsShape uuidShape u"
    using fitsShape_length [of uuidShape u] by auto
  moreover have "\<not> fitsShape uuidShape (u @ rest)"
  proof
    assume "fitsShape uuidShape (u @ rest)"
    from fitsShape_nth [OF this short] have "classOf (uuidShape ! (length u - 1)) ((u @ rest) ! (length u - 1))" .
    moreover have "(u @ rest) ! (length u - 1) = last u"
      using assms(1) by (simp add: nth_append last_conv_nth)
    ultimately have "isHex (last u) \<or> last u = CHR ''-''"
      using uuid_class [OF short] by simp
    with assms(2) show False by (simp add: uuidNeutral_def)
  qed
  ultimately show ?thesis by (simp add: matchShape_def)
qed

lemma matchShape_inside: "matchShape shape p u = Some n \<Longrightarrow> n \<le> length u"
  by (auto simp: matchShape_def fitsShape_length split: if_splits)

lemma replaceUUIDs_append:
  assumes "case pre of [] \<Rightarrow> True | _ \<Rightarrow> uuidNeutral (last pre)"
  shows "replaceAll (matchShape uuidShape) r prev (pre @ rest)
           = replaceAll (matchShape uuidShape) r prev pre
             @ replaceAll (matchShape uuidShape) r None rest"
proof -
  have same: "matchShape uuidShape p (u @ rest) = matchShape uuidShape p u"
    if "pre = v @ u" and "u \<noteq> []" for p u v
  proof -
    from that have "last u = last pre" and "pre \<noteq> []" by simp_all
    with assms have "uuidNeutral (last u)" by (cases pre) simp_all
    with that(2) show ?thesis by (rule uuid_confined)
  qed
  have inside: "n \<le> length u" if "matchShape uuidShape p u = Some n" for p u n
    using that by (rule matchShape_inside)
  have "replaceAll (matchShape uuidShape) r prev (pre @ rest)
          = replaceAll (matchShape uuidShape) r prev pre
            @ replaceAll (matchShape uuidShape) r (case pre of [] \<Rightarrow> prev | _ \<Rightarrow> Some (last pre)) rest"
    using same inside by (intro replaceAll_append) blast+
  also have "replaceAll (matchShape uuidShape) r (case pre of [] \<Rightarrow> prev | _ \<Rightarrow> Some (last pre)) rest
               = replaceAll (matchShape uuidShape) r None rest"
    by (rule replaceAll_prev) (simp add: matchShape_def)
  finally show ?thesis .
qed

lemma uuid_differs_in_place:
  assumes "isUUID x" and "case pre of [] \<Rightarrow> True | _ \<Rightarrow> uuidNeutral (last pre)"
  shows "replaceUUIDs (pre @ x @ post)
           = replaceUUIDs pre @ ''<UUID>'' @ replaceUUIDs post"
proof -
  from assms(1) have len: "length x = 36" and fits: "fitsShape uuidShape x" and ne: "x \<noteq> []"
    by (auto simp: isUUID_def)
  have "matchShape uuidShape None (x @ post) = Some (length x)"
    using len fits by (simp add: matchShape_def fitsShape_append length_uuidShape)
  from replaceAll_match_prefix [of x "matchShape uuidShape" None post "''<UUID>''", OF ne this]
  have "replaceAll (matchShape uuidShape) ''<UUID>'' None (x @ post)
          = ''<UUID>'' @ replaceAll (matchShape uuidShape) ''<UUID>'' (Some (last x)) post" .
  also have "replaceAll (matchShape uuidShape) ''<UUID>'' (Some (last x)) post
               = replaceAll (matchShape uuidShape) ''<UUID>'' None post"
    by (rule replaceAll_prev) (simp add: matchShape_def)
  finally show ?thesis
    unfolding replaceUUIDs_def using replaceUUIDs_append [OF assms(2), of "''<UUID>''" None "x @ post"]
    by simp
qed

lemma isDigit_isWord: "isDigit c \<Longrightarrow> isWord c"
  by (simp add: isWord_def)

lemma isHex_isWord: "isHex c \<Longrightarrow> isWord c"
  by (auto simp: isWord_def isHex_def)

lemma isDigit_not_dash: "isDigit c \<Longrightarrow> c \<noteq> CHR ''-''"
  by (auto simp: isDigit_def)

lemma separator_neutral: "separator c \<Longrightarrow> uuidNeutral c"
  by (auto simp: separator_def uuidNeutral_def isHex_isWord)

lemma num_confined:
  assumes "u \<noteq> []" and "\<not> isWord (last u)"
  shows "matchNumber p (u @ rest) = matchNumber p u"
proof -
  have in_u: "last u \<in> set u" using assms(1) by simp
  have nd: "\<not> isDigit (last u)" using assms(2) isDigit_isWord by blast
  have t: "takeWhile isDigit (u @ rest) = takeWhile isDigit u"
    using in_u nd by (rule takeWhile_append1)
  have d: "dropWhile isDigit (u @ rest) = dropWhile isDigit u @ rest"
    using in_u nd by (rule dropWhile_append1)
  have "dropWhile isDigit u \<noteq> []"
    using in_u nd by (auto simp: dropWhile_eq_Nil_conv)
  then obtain x xs where "dropWhile isDigit u = x # xs" by (cases "dropWhile isDigit u") auto
  with t d show ?thesis by (simp add: matchNumber_def Let_def)
qed

lemma num_inside: "matchNumber p u = Some n \<Longrightarrow> n \<le> length u"
  by (auto simp: matchNumber_def Let_def length_takeWhile_le split: if_splits)

lemma replaceNumbers_append:
  assumes "case pre of [] \<Rightarrow> True | _ \<Rightarrow> \<not> isWord (last pre)"
  shows "replaceAll matchNumber r prev (pre @ rest)
           = replaceAll matchNumber r prev pre
             @ replaceAll matchNumber r (case pre of [] \<Rightarrow> prev | _ \<Rightarrow> Some (last pre)) rest"
proof -
  have same: "matchNumber p (u @ rest) = matchNumber p u"
    if "pre = v @ u" and "u \<noteq> []" for p u v
  proof -
    from that have "last u = last pre" and "pre \<noteq> []" by simp_all
    with assms have "\<not> isWord (last u)" by (cases pre) simp_all
    with that(2) show ?thesis by (rule num_confined)
  qed
  have inside: "n \<le> length u" if "matchNumber p u = Some n" for p u n
    using that by (rule num_inside)
  show ?thesis using same inside by (intro replaceAll_append) blast+
qed

lemma number_matches:
  assumes "wholeNumber ds"
    and "case post of [] \<Rightarrow> True | c # _ \<Rightarrow> \<not> isWord c"
    and "case prev of None \<Rightarrow> True | Some p \<Rightarrow> \<not> isWord p"
  shows "matchNumber prev (ds @ post) = Some (length ds)"
proof -
  from assms(1) have ne: "ds \<noteq> []" and all: "\<And>x. x \<in> set ds \<Longrightarrow> isDigit x"
    by (auto simp: wholeNumber_def list_all_iff)
  have tp: "takeWhile isDigit post = []" and dp: "dropWhile isDigit post = post"
    using assms(2) isDigit_isWord by (cases post; auto)+
  have t: "takeWhile isDigit (ds @ post) = ds"
    using takeWhile_append2 [of ds isDigit post] all tp by simp
  have d: "dropWhile isDigit (ds @ post) = post"
    using dropWhile_append2 [of ds isDigit post] all dp by simp
  show ?thesis
    using ne assms(2,3) by (simp add: matchNumber_def t d)
qed

lemma after_word: "isWord p \<Longrightarrow> matchNumber (Some p) u = None"
  by (simp add: matchNumber_def Let_def)

lemma number_differs_in_place:
  assumes "wholeNumber ds"
    and "case pre of [] \<Rightarrow> True | _ \<Rightarrow> \<not> isWord (last pre)"
    and "case post of [] \<Rightarrow> True | c # _ \<Rightarrow> \<not> isWord c"
  shows "replaceNumbers (pre @ ds @ post)
           = replaceNumbers pre @ ''<NUM>'' @ replaceAll matchNumber ''<NUM>'' (Some CHR ''0'') post"
proof -
  let ?P = "case pre of [] \<Rightarrow> None | _ \<Rightarrow> Some (last pre)"
  from assms(1) have ne: "ds \<noteq> []" and all: "\<And>x. x \<in> set ds \<Longrightarrow> isDigit x"
    by (auto simp: wholeNumber_def list_all_iff)
  have prev_ok: "case ?P of None \<Rightarrow> True | Some p \<Rightarrow> \<not> isWord p"
    using assms(2) by (cases pre) simp_all
  have m: "matchNumber ?P (ds @ post) = Some (length ds)"
    using assms(1,3) prev_ok by (rule number_matches)
  have "isDigit (last ds)" using ne all by simp
  then have w: "isWord (last ds)" by (rule isDigit_isWord)
  have z: "isWord CHR ''0''" by (simp add: isWord_def isDigit_def)
  have "replaceAll matchNumber ''<NUM>'' ?P (ds @ post)
          = ''<NUM>'' @ replaceAll matchNumber ''<NUM>'' (Some (last ds)) post"
    using replaceAll_match_prefix [of ds matchNumber ?P post "''<NUM>''", OF ne m] .
  also have "replaceAll matchNumber ''<NUM>'' (Some (last ds)) post
               = replaceAll matchNumber ''<NUM>'' (Some CHR ''0'') post"
    by (rule replaceAll_prev) (simp add: after_word w z)
  finally show ?thesis
    unfolding replaceNumbers_def
    using replaceNumbers_append [OF assms(2), of "''<NUM>''" None "ds @ post"] by simp
qed

text \<open>Digits next to separators take no part in a UUID.\<close>

lemma uuidShape_8: "uuidShape ! 8 = CHR ''-''"
  by (simp add: uuidShape_def)

lemma digits_no_uuid:
  assumes "\<And>x. x \<in> set u \<Longrightarrow> isDigit x"
    and "case post of [] \<Rightarrow> True | c # _ \<Rightarrow> separator c"
  shows "matchShape uuidShape p (u @ post) = None"
proof -
  have "\<not> fitsShape uuidShape (u @ post)"
  proof
    assume fits: "fitsShape uuidShape (u @ post)"
    then have long: "36 \<le> length (u @ post)"
      using fitsShape_length [of uuidShape "u @ post"] by (simp add: length_uuidShape)
    show False
    proof (cases "8 < length u")
      case True
      from fitsShape_nth [OF fits, of 8] have "classOf (uuidShape ! 8) ((u @ post) ! 8)"
        by (simp add: length_uuidShape)
      with True have "u ! 8 = CHR ''-''"
        by (simp add: uuidShape_8 classOf_def nth_append)
      moreover from True have "u ! 8 \<in> set u" by simp
      ultimately show False using assms(1) isDigit_not_dash by metis
    next
      case False
      with long obtain c cs where post: "post = c # cs" by (cases post) auto
      from False have i: "length u < length uuidShape" by (simp add: length_uuidShape)
      from fitsShape_nth [OF fits i] post have "classOf (uuidShape ! length u) c"
        by (simp add: nth_append)
      from uuid_class [OF i this] have "isHex c \<or> c = CHR ''-''" .
      moreover from assms(2) post have "separator c" by simp
      ultimately show False using separator_neutral [of c] by (auto simp: uuidNeutral_def)
    qed
  qed
  then show ?thesis by (simp add: matchShape_def)
qed

lemma uuid_skips_number:
  assumes "wholeNumber ds" and "case post of [] \<Rightarrow> True | c # _ \<Rightarrow> separator c"
  shows "replaceAll (matchShape uuidShape) r prev (ds @ post)
           = ds @ replaceAll (matchShape uuidShape) r None post"
proof -
  from assms(1) have all: "\<And>x. x \<in> set ds \<Longrightarrow> isDigit x"
    by (auto simp: wholeNumber_def list_all_iff)
  have none: "matchShape uuidShape p (u @ rest) = None"
    if "ds = v @ u" and "case rest of [] \<Rightarrow> True | c # _ \<Rightarrow> separator c" for p u v rest
  proof -
    from that(1) all have "\<And>x. x \<in> set u \<Longrightarrow> isDigit x" by auto
    then show ?thesis using that(2) by (rule digits_no_uuid)
  qed
  have same: "matchShape uuidShape p (u @ post) = matchShape uuidShape p u"
    if "ds = v @ u" for p u v
    using none [OF that, of post p] none [OF that, of "[]" p] assms(2) by simp
  have "replaceAll (matchShape uuidShape) r prev (ds @ post)
          = replaceAll (matchShape uuidShape) r prev ds
            @ replaceAll (matchShape uuidShape) r (case ds of [] \<Rightarrow> prev | _ \<Rightarrow> Some (last ds)) post"
    using same matchShape_inside by (intro replaceAll_append) blast+
  moreover have "replaceAll (matchShape uuidShape) r prev ds = ds"
  proof (rule replaceAll_untouched)
    fix p u v assume "ds = v @ u"
    from none [OF this, of "[]" p] show "matchShape uuidShape p u = None" by simp
  qed
  moreover have "replaceAll (matchShape uuidShape) r (case ds of [] \<Rightarrow> prev | _ \<Rightarrow> Some (last ds)) post
                   = replaceAll (matchShape uuidShape) r None post"
    by (rule replaceAll_prev) (simp add: matchShape_def)
  ultimately show ?thesis by simp
qed

lemma uuid_step_no:
  "\<not> fitsShape uuidShape (c # cs) \<Longrightarrow>
     replaceAll (matchShape uuidShape) r p (c # cs) = c # replaceAll (matchShape uuidShape) r (Some c) cs"
  by (simp add: matchShape_def)

lemma uuid_step_yes:
  "fitsShape uuidShape (c # cs) \<Longrightarrow>
     replaceAll (matchShape uuidShape) r p (c # cs)
       = r @ replaceAll (matchShape uuidShape) r (Some (last (c # take 35 cs))) (drop 35 cs)"
  by (simp add: matchShape_def length_uuidShape)

lemma uuid_keeps_last:
  "s \<noteq> [] \<Longrightarrow> uuidNeutral (last s) \<Longrightarrow>
     replaceAll (matchShape uuidShape) r p s \<noteq> []
     \<and> last (replaceAll (matchShape uuidShape) r p s) = last s"
proof (induction s arbitrary: p rule: length_induct)
  case (1 s)
  from "1.prems"(1) obtain c cs where s: "s = c # cs" by (cases s) auto
  have tail: "replaceAll (matchShape uuidShape) r q t \<noteq> []
              \<and> last (replaceAll (matchShape uuidShape) r q t) = last s"
    if "t \<noteq> []" and "length t < length s" and "last t = last s" for t q
    using "1.IH" that "1.prems"(2) by auto
  show ?case
  proof (cases "fitsShape uuidShape (c # cs)")
    case False
    show ?thesis
    proof (cases cs)
      case Nil
      with s False show ?thesis by (simp add: uuid_step_no del: replaceAll.simps(2))
    next
      case (Cons d ds)
      with s have "cs \<noteq> []" and "length cs < length s" and "last cs = last s" by simp_all
      from tail [OF this, of "Some c"] s False Cons show ?thesis
        by (simp add: uuid_step_no del: replaceAll.simps(2))
    qed
  next
    case True
    from fitsShape_nth [OF True, of 35] have "classOf (uuidShape ! 35) ((c # cs) ! 35)"
      by (simp add: length_uuidShape)
    from uuid_class [OF _ this] have h35: "isHex ((c # cs) ! 35) \<or> (c # cs) ! 35 = CHR ''-''"
      by (simp add: length_uuidShape)
    from fitsShape_length [OF True] have long: "36 \<le> length (c # cs)"
      by (simp add: length_uuidShape)
    have "length (c # cs) \<noteq> 36"
    proof
      assume eq: "length (c # cs) = 36"
      then have "last (c # cs) = (c # cs) ! 35"
        by (simp add: last_conv_nth del: last.simps)
      with h35 "1.prems"(2) s show False by (simp add: uuidNeutral_def del: last.simps)
    qed
    with long have more: "35 < length cs" by simp
    then have "drop 35 cs \<noteq> []" and "length (drop 35 cs) < length s" and "last (drop 35 cs) = last s"
      using s by auto
    from tail [OF this, of "Some (last (c # take 35 cs))"] s True show ?thesis
      by (simp add: uuid_step_yes del: replaceAll.simps(2))
  qed
qed

lemma inv33: "(x * 33) * 1041204193 = (x :: 32 word)"
proof -
  have "(x * 33) * 1041204193 = x * (33 * 1041204193)" by (simp only: mult.assoc)
  also have "(33 * 1041204193 :: 32 word) = 1" by simp
  finally show ?thesis by simp
qed

lemma hashStep_inj: "hashStep h c = hashStep h' c \<Longrightarrow> h = h'"
proof -
  assume a: "hashStep h c = hashStep h' c"
  let ?k = "of_nat (of_char c) :: 32 word"
  from a have "((h * 33) XOR ?k) XOR ?k = ((h' * 33) XOR ?k) XOR ?k"
    by (simp add: hashStep_def)
  then have "h * 33 = h' * 33" by (simp add: xor.assoc)
  then have "(h * 33) * 1041204193 = (h' * 33) * 1041204193" by simp
  then show ?thesis by (simp only: inv33)
qed

lemma foldl_hashStep_inj: "foldl hashStep h s = foldl hashStep h' s \<Longrightarrow> h = h'"
proof (induction s arbitrary: h h')
  case Nil
  then show ?case by simp
next
  case (Cons c cs)
  then have "hashStep h c = hashStep h' c" by simp
  then show ?case by (rule hashStep_inj)
qed

lemma hashState_append: "hashState (a @ b) = foldl hashStep (hashState a) b"
  by (simp add: hashState_def)

lemma hexDigit_code:
  assumes "d < 16"
  shows "(of_char (hexDigit d) :: nat) = (if d < 10 then 48 + d else 87 + d)"
proof -
  have "list_all (\<lambda>d. (of_char (hexDigit d) :: nat) = (if d < 10 then 48 + d else 87 + d)) [0..<16]"
    by code_simp
  then have "\<forall>d \<in> set [0..<16]. (of_char (hexDigit d) :: nat) = (if d < 10 then 48 + d else 87 + d)"
    by (simp only: list_all_iff)
  with assms show ?thesis by simp
qed

lemma hexDigit_inj:
  assumes "a < 16" and "b < 16" and "hexDigit a = hexDigit b"
  shows "a = b"
proof -
  from assms(3) have "(of_char (hexDigit a) :: nat) = of_char (hexDigit b)" by simp
  with hexDigit_code [OF assms(1)] hexDigit_code [OF assms(2)] assms(1,2) show ?thesis
    by (auto split: if_splits)
qed

lemma nibble_less: "unat (nibble i w) < 16"
proof -
  have "nibble i w \<le> 15" unfolding nibble_def by (rule word_and_le1)
  then have "unat (nibble i w) \<le> unat (15 :: 32 word)" by (simp add: word_le_nat_alt)
  then show ?thesis by simp
qed

lemma fifteen: "(15 :: 32 word) = mask 4"
  by (simp add: mask_eq_exp_minus_1)

lemma bit_nibble: "j < 4 \<Longrightarrow> bit (nibble i w) j = bit w (4 * i + j)"
  by (simp add: nibble_def fifteen bit_and_iff bit_drop_bit_eq bit_mask_iff)

lemma hex8_inj:
  assumes "hex8 w = hex8 w'"
  shows "w = w'"
proof -
  have digits: "hexDigit (unat (nibble i w)) = hexDigit (unat (nibble i w'))" if "i < 8" for i
  proof -
    have "set [7, 6, 5, 4, 3, 2, 1, 0 :: nat] = set [0..<8]" by code_simp
    with that have "i \<in> set [7, 6, 5, 4, 3, 2, 1, 0 :: nat]" by simp
    moreover from assms have "\<forall>i \<in> set [7, 6, 5, 4, 3, 2, 1, 0 :: nat].
        hexDigit (unat (nibble i w)) = hexDigit (unat (nibble i w'))"
      unfolding hex8_def by (simp only: map_eq_conv)
    ultimately show ?thesis by blast
  qed
  have nib: "nibble i w = nibble i w'" if "i < 8" for i
  proof -
    from hexDigit_inj [OF nibble_less nibble_less digits [OF that]]
    show ?thesis by (simp add: word_unat_eq_iff)
  qed
  show ?thesis
  proof (rule bit_word_eqI)
    fix n assume "n < LENGTH(32)"
    then have n: "n < 32" by simp
    then have i: "n div 4 < 8" and j: "n mod 4 < 4" by simp_all
    have "bit w n = bit (nibble (n div 4) w) (n mod 4)"
      using bit_nibble [OF j, of "n div 4" w] by simp
    also have "\<dots> = bit (nibble (n div 4) w') (n mod 4)" using nib [OF i] by simp
    also have "\<dots> = bit w' n" using bit_nibble [OF j, of "n div 4" w'] by simp
    finally show "bit w n = bit w' n" .
  qed
qed

lemma join_Cons: "join (p # ps) = p @ (if ps = [] then [] else ''|'' @ join ps)"
  by (cases ps) simp_all

lemma hashString_prefix:
  "hashString (a @ after) = hashString (b @ after) \<longleftrightarrow> hashState a = hashState b"
proof
  assume "hashString (a @ after) = hashString (b @ after)"
  then have "hashState (a @ after) = hashState (b @ after)"
    unfolding hashString_def by (rule hex8_inj)
  then show "hashState a = hashState b"
    unfolding hashState_append by (rule foldl_hashStep_inj)
next
  assume "hashState a = hashState b"
  then show "hashString (a @ after) = hashString (b @ after)"
    by (simp add: hashString_def hashState_append)
qed

lemma fingerprint_by_name:
  assumes "noCustom cfg" and "typeUsed cfg" and "errStack e1 = errStack e2"
    and "normalizeMessage (errMessage e1) = normalizeMessage (errMessage e2)"
  shows "generateFingerprint frameOf e1 event cfg = generateFingerprint frameOf e2 event cfg
         \<longleftrightarrow> hashState (typeName e1) = hashState (typeName e2)"
proof -
  obtain rest where
    r1: "generateFingerprint frameOf e1 event cfg = hashString (join (typeName e1 # rest))" and
    r2: "generateFingerprint frameOf e2 event cfg = hashString (join (typeName e2 # rest))"
    using assms by (simp add: generateFingerprint_def noCustom_def typeUsed_def)
  show ?thesis
    unfolding r1 r2 join_Cons by (rule hashString_prefix)
qed

lemma number_normalized:
  assumes "wholeNumber ds" and "delimited pre post"
  shows "replaceNumbers (replaceUUIDs (pre @ ds @ post))
           = replaceNumbers (replaceUUIDs pre) @ ''<NUM>''
             @ replaceAll matchNumber ''<NUM>'' (Some CHR ''0'') (replaceUUIDs post)"
proof -
  let ?A = "replaceUUIDs pre" and ?B = "replaceUUIDs post"
  from assms(2) have pre: "case pre of [] \<Rightarrow> True | _ \<Rightarrow> separator (last pre)"
    and post: "case post of [] \<Rightarrow> True | c # _ \<Rightarrow> separator c"
    by (simp_all add: delimited_def)
  have preN: "case pre of [] \<Rightarrow> True | _ \<Rightarrow> uuidNeutral (last pre)"
    using pre separator_neutral by (cases pre) simp_all
  have "replaceUUIDs (pre @ ds @ post)
          = ?A @ replaceAll (matchShape uuidShape) ''<UUID>'' None (ds @ post)"
    unfolding replaceUUIDs_def by (rule replaceUUIDs_append [OF preN])
  also have "replaceAll (matchShape uuidShape) ''<UUID>'' None (ds @ post) = ds @ ?B"
    unfolding replaceUUIDs_def by (rule uuid_skips_number [OF assms(1) post])
  finally have uu: "replaceUUIDs (pre @ ds @ post) = ?A @ ds @ ?B" .
  have A: "case ?A of [] \<Rightarrow> True | _ \<Rightarrow> \<not> isWord (last ?A)"
  proof (cases pre)
    case Nil
    then show ?thesis by (simp add: replaceUUIDs_def)
  next
    case (Cons c cs)
    with pre have sep: "separator (last pre)" and ne: "pre \<noteq> []" by simp_all
    from uuid_keeps_last [OF ne separator_neutral [OF sep], of "''<UUID>''" None]
    have "?A \<noteq> []" and "last ?A = last pre" by (simp_all add: replaceUUIDs_def)
    with sep show ?thesis by (cases ?A) (simp_all add: separator_def)
  qed
  have B: "case ?B of [] \<Rightarrow> True | c # _ \<Rightarrow> \<not> isWord c"
  proof (cases post)
    case Nil
    then show ?thesis by (simp add: replaceUUIDs_def)
  next
    case (Cons c cs)
    with post have sep: "separator c" by simp
    then have "\<not> isHex c" using separator_neutral by (simp add: uuidNeutral_def)
    then have "\<not> fitsShape uuidShape (c # cs)" by (simp add: uuidShape_def classOf_def)
    from uuid_step_no [OF this, of "''<UUID>''" None] Cons sep show ?thesis
      by (simp add: replaceUUIDs_def separator_def del: replaceAll.simps(2))
  qed
  from number_differs_in_place [OF assms(1) A B] uu show ?thesis by simp
qed

lemma normalize_number:
  assumes "wholeNumber x1" and "wholeNumber x2" and "delimited pre post"
  shows "normalizeMessage (pre @ x1 @ post) = normalizeMessage (pre @ x2 @ post)"
  unfolding normalizeMessage_def
  using number_normalized [OF assms(1,3)] number_normalized [OF assms(2,3)] by simp

lemma normalize_uuid:
  assumes "isUUID x1" and "isUUID x2" and "case pre of [] \<Rightarrow> True | _ \<Rightarrow> uuidNeutral (last pre)"
  shows "normalizeMessage (pre @ x1 @ post) = normalizeMessage (pre @ x2 @ post)"
  unfolding normalizeMessage_def
  using uuid_differs_in_place [OF assms(1,3)] uuid_differs_in_place [OF assms(2,3)] by simp

lemma fingerprint_cong:
  assumes "noCustom cfg" and "errName e1 = errName e2" and "errStack e1 = errStack e2"
    and "normalizeMessage (errMessage e1) = normalizeMessage (errMessage e2)"
  shows "generateFingerprint frameOf e1 event cfg = generateFingerprint frameOf e2 event cfg"
  using assms by (simp add: generateFingerprint_def noCustom_def typeName_def)

text \<open>
  C5 as the code has it.  Take two errors with the same stack and no custom override.
  If they have the same type name and their messages differ only in a decimal number
  that has, on each side, the end of the message or a character that is neither a word
  character nor \<open>-\<close>, or only in a UUID that has before it the start of the message or
  a character that is neither a hexadecimal digit nor \<open>-\<close>, their fingerprints are
  equal.  If they have the same message and the type name is part of the fingerprint,
  their fingerprints are equal exactly when the 32-bit hash values of the two type names
  (the empty name read as \<open>Error\<close>) are equal: different type names give different
  fingerprints unless the names collide under the hash.
\<close>

theorem fingerprint_stable:
  assumes "noCustom cfg" and "errStack e1 = errStack e2"
  shows "(errName e1 = errName e2
          \<and> errMessage e1 = pre @ x1 @ post \<and> errMessage e2 = pre @ x2 @ post
          \<and> ((wholeNumber x1 \<and> wholeNumber x2 \<and> delimited pre post)
               \<or> (isUUID x1 \<and> isUUID x2
                    \<and> (case pre of [] \<Rightarrow> True | _ \<Rightarrow> uuidNeutral (last pre))))
          \<longrightarrow> generateFingerprint frameOf e1 event cfg = generateFingerprint frameOf e2 event cfg)
       \<and> (typeUsed cfg \<and> errMessage e1 = errMessage e2
          \<longrightarrow> (generateFingerprint frameOf e1 event cfg = generateFingerprint frameOf e2 event cfg
               \<longleftrightarrow> hashState (typeName e1) = hashState (typeName e2)))"
proof (intro conjI impI)
  assume h: "errName e1 = errName e2
          \<and> errMessage e1 = pre @ x1 @ post \<and> errMessage e2 = pre @ x2 @ post
          \<and> ((wholeNumber x1 \<and> wholeNumber x2 \<and> delimited pre post)
               \<or> (isUUID x1 \<and> isUUID x2
                    \<and> (case pre of [] \<Rightarrow> True | _ \<Rightarrow> uuidNeutral (last pre))))"
  then have "normalizeMessage (pre @ x1 @ post) = normalizeMessage (pre @ x2 @ post)"
    using normalize_number normalize_uuid by blast
  with h have "normalizeMessage (errMessage e1) = normalizeMessage (errMessage e2)" by simp
  with assms h show "generateFingerprint frameOf e1 event cfg = generateFingerprint frameOf e2 event cfg"
    by (intro fingerprint_cong) simp_all
next
  assume "typeUsed cfg \<and> errMessage e1 = errMessage e2"
  with assms show "generateFingerprint frameOf e1 event cfg = generateFingerprint frameOf e2 event cfg
               \<longleftrightarrow> hashState (typeName e1) = hashState (typeName e2)"
    by (intro fingerprint_by_name) simp_all
qed

lemmas class_eval = isDigit_def isHex_def isWord_def classOf_def isWhiteSpace_def isUrlChar_def
  isPathChar_def

lemmas normalize_eval = normalizeMessage_def replaceUUIDs_def replaceNumbers_def afterNumbers_def
  trim_def matchShape_def uuidShape_def timestampShape_def matchNumber_def matchURL_def
  matchFile_def matchAddr_def matchSpace_def extensionAt_def dotExtension_def class_eval Let_def

lemmas fingerprint_eval = generateFingerprint_def typeName_def jsError_def hashString_def hashState_def
  hashStep_def hex8_def nibble_def
  hexDigit_def normalize_eval

text \<open>
  The passes on one message: URL, file path (the alternative \<open>ts\<close> wins over \<open>tsx\<close>),
  address, white space.
\<close>

lemma normalize_example:
  "normalizeMessage ''GET https://api.example.com/v1/users?id=7 failed in /src/app/main.tsx at 0x7ffe12 ''
     = ''GET <URL> failed in <FILE>x at <ADDR>''"
  by (simp add: normalize_eval)

theorem fingerprint_stable_witness:
  "generateFingerprint (\<lambda>st. None) (jsError ''TypeError'' ''User 123 not found'') (ev ''e1'' 0) None
     = generateFingerprint (\<lambda>st. None) (jsError ''TypeError'' ''User 4567 not found'') (ev ''e1'' 0) None
   \<and> generateFingerprint (\<lambda>st. None)
         (jsError ''TypeError'' ''session 123e4567-e89b-12d3-a456-426614174000 expired'') (ev ''e1'' 0) None
     = generateFingerprint (\<lambda>st. None)
         (jsError ''TypeError'' ''session 00000000-0000-4000-8000-00000000ABCD expired'') (ev ''e1'' 0) None
   \<and> generateFingerprint (\<lambda>st. None) (jsError ''TypeError'' ''boom'') (ev ''e1'' 0) None
     \<noteq> generateFingerprint (\<lambda>st. None) (jsError ''RangeError'' ''boom'') (ev ''e1'' 0) None"
proof -
  have nc: "noCustom None" and tu: "typeUsed None"
    by (simp_all add: noCustom_def typeUsed_def)
  have st: "errStack (jsError n1 m1) = errStack (jsError n2 m2)" for n1 m1 n2 m2
    by (simp add: jsError_def)
  have n1: "wholeNumber ''123'' \<and> wholeNumber ''4567'' \<and> delimited ''User '' '' not found''"
    by (simp add: wholeNumber_def delimited_def separator_def class_eval)
  have u1: "isUUID ''123e4567-e89b-12d3-a456-426614174000''
            \<and> isUUID ''00000000-0000-4000-8000-00000000ABCD''
            \<and> (case ''session '' of [] \<Rightarrow> True | _ \<Rightarrow> uuidNeutral (last ''session ''))"
    by (simp add: isUUID_def uuidShape_def uuidNeutral_def class_eval)
  have names: "hashState (typeName (jsError ''TypeError'' ''boom''))
                 \<noteq> hashState (typeName (jsError ''RangeError'' ''boom''))"
    by (simp add: typeName_def jsError_def hashState_def hashStep_def)
  have a: "generateFingerprint (\<lambda>st. None) (jsError ''TypeError'' ''User 123 not found'') (ev ''e1'' 0) None
     = generateFingerprint (\<lambda>st. None) (jsError ''TypeError'' ''User 4567 not found'') (ev ''e1'' 0) None"
    using fingerprint_stable [where cfg = None and pre = "''User ''" and post = "'' not found''"
             and ?x1.0 = "''123''" and ?x2.0 = "''4567''"
             and ?e1.0 = "jsError ''TypeError'' ''User 123 not found''"
             and ?e2.0 = "jsError ''TypeError'' ''User 4567 not found''", OF nc st] n1
    by (simp add: jsError_def)
  have b: "generateFingerprint (\<lambda>st. None)
         (jsError ''TypeError'' ''session 123e4567-e89b-12d3-a456-426614174000 expired'') (ev ''e1'' 0) None
     = generateFingerprint (\<lambda>st. None)
         (jsError ''TypeError'' ''session 00000000-0000-4000-8000-00000000ABCD expired'') (ev ''e1'' 0) None"
    using fingerprint_stable [where cfg = None and pre = "''session ''" and post = "'' expired''"
             and ?x1.0 = "''123e4567-e89b-12d3-a456-426614174000''"
             and ?x2.0 = "''00000000-0000-4000-8000-00000000ABCD''"
             and ?e1.0 = "jsError ''TypeError'' ''session 123e4567-e89b-12d3-a456-426614174000 expired''"
             and ?e2.0 = "jsError ''TypeError'' ''session 00000000-0000-4000-8000-00000000ABCD expired''",
             OF nc st] u1
    by (simp add: jsError_def)
  have c: "generateFingerprint (\<lambda>st. None) (jsError ''TypeError'' ''boom'') (ev ''e1'' 0) None
     \<noteq> generateFingerprint (\<lambda>st. None) (jsError ''RangeError'' ''boom'') (ev ''e1'' 0) None"
    using fingerprint_stable [where cfg = None and ?e1.0 = "jsError ''TypeError'' ''boom''"
             and ?e2.0 = "jsError ''RangeError'' ''boom''", OF nc st] tu names
    by (simp add: jsError_def)
  from a b c show ?thesis by blast
qed

text \<open>
  C5 as the specification states it fails on both halves.  The type names \<open>bC\<close> and \<open>cb\<close> differ
  and get the same fingerprint (the hash has 32 bits), and so do the empty name and
  \<open>Error\<close>.  The messages \<open>Failed to load item42\<close> and \<open>Failed to load item43\<close>
  differ only in an embedded number and get different fingerprints: \<open>\b\d+\b\<close> does
  not match digits that are part of a word.
\<close>

theorem fingerprint_collides_and_splits:
  "generateFingerprint (\<lambda>st. None) (jsError ''bC'' ''boom'') (ev ''e1'' 0) None = ''c61d3b37''
   \<and> generateFingerprint (\<lambda>st. None) (jsError ''cb'' ''boom'') (ev ''e1'' 0) None = ''c61d3b37''
   \<and> generateFingerprint (\<lambda>st. None) (jsError [] ''boom'') (ev ''e1'' 0) None
       = generateFingerprint (\<lambda>st. None) (jsError ''Error'' ''boom'') (ev ''e1'' 0) None
   \<and> generateFingerprint (\<lambda>st. None) (jsError ''Error'' ''Failed to load item42'') (ev ''e1'' 0) None
       = ''e43ad52c''
   \<and> generateFingerprint (\<lambda>st. None) (jsError ''Error'' ''Failed to load item43'') (ev ''e1'' 0) None
       = ''e43ad52d''"
  by (simp add: fingerprint_eval)

section \<open>Tracker: facts\<close>

lemma send_accepted:
  assumes "endpoint t \<noteq> []" and "events \<noteq> []" and "k < maxAttempts t"
    and "\<forall>i<k. retried (fetch i)"
    and "fetch k = Resp r" and "ok r" and "json r = JsonData event_ids"
  shows "response (send t fetch rnd events)
           = \<lparr>success = True,
              eventIds = Some (case event_ids of Some ids \<Rightarrow> ids | None \<Rightarrow> map event_id events),
              error = None\<rparr>"
proof -
  from assms(4) have all: "\<forall>i. 0 \<le> i \<and> i < k \<longrightarrow> retried (fetch i)" by simp
  from assms(3) have "k \<le> maxAttempts t" by simp
  from send_loop_skip [OF all _ this, of rnd events "[]" None "[]"] obtain le' ls' sl' where
    eq: "send_loop t fetch rnd events 0 [] None [] = send_loop t fetch rnd events k le' ls' sl'"
    by auto
  have "response (send_loop t fetch rnd events k le' ls' sl')
           = \<lparr>success = True,
              eventIds = Some (case event_ids of Some ids \<Rightarrow> ids | None \<Rightarrow> map event_id events),
              error = None\<rparr>"
    using assms(3,5,6,7) by (subst send_loop.simps) simp
  with eq show ?thesis
    using send_nonempty [OF assms(1,2), of fetch rnd] by simp
qed

lemma queue_remove: "queue (remove q ids) = filter (\<lambda>e. event_id e \<notin> set ids) (queue q)"
  by (simp add: remove_def persist_def Let_def)

text \<open>
  C1 as the code has it.  When the send ends in a 2xx response whose body parses: if the
  body has \<open>event_ids\<close>, exactly the queue entries with those ids are removed; if it has
  none, exactly the entries whose ids are those of the batch that was sent are removed.
  In both cases the queue is the one at the time the response arrives, so events
  enqueued after the batch was read stay unless their id is among the removed ids.
\<close>

theorem flush_removes_accepted:
  assumes "endpoint (transport tr) \<noteq> []" and "queue (eventQueue tr) \<noteq> []"
    and "k < maxAttempts (transport tr)" and "\<forall>i<k. retried (fetch i)"
    and "fetch k = Resp r" and "ok r" and "json r = JsonData event_ids"
  shows "queue (eventQueue (sendQueuedEvents fetch rnd arrivals tr))
           = filter (\<lambda>e. event_id e \<notin> set (case event_ids of
                                               Some ids \<Rightarrow> ids
                                             | None \<Rightarrow> map event_id (queue (eventQueue tr))))
                    (queue (add_all (eventQueue tr) arrivals))"
proof -
  have "response (send (transport tr) fetch rnd (queue (eventQueue tr)))
          = \<lparr>success = True,
             eventIds = Some (case event_ids of Some ids \<Rightarrow> ids
                              | None \<Rightarrow> map event_id (queue (eventQueue tr))),
             error = None\<rparr>"
    using assms by (rule send_accepted)
  with assms(2) show ?thesis
    by (simp add: sendQueuedEvents_def getAll_def applyResponse_def queue_remove Let_def)
qed

theorem flush_removes_accepted_witness:
  "queue (eventQueue (sendQueuedEvents (\<lambda>n. Resp (accepted (Some [''a''])))
            (\<lambda>n. 0) [ev ''c'' 1200]
            (fst (init (withEndpoint ''https://collector.example/errors'') 1000
                    (new_ErrorTracker (Events [ev ''a'' 900, ev ''b'' 950]), [])))))
     = [ev ''b'' 950, ev ''c'' 1200]"
  using flush_removes_accepted [of
          "fst (init (withEndpoint ''https://collector.example/errors'') 1000
                  (new_ErrorTracker (Events [ev ''a'' 900, ev ''b'' 950]), []))"
          0 "\<lambda>n. Resp (accepted (Some [''a'']))" "accepted (Some [''a''])" "Some [''a'']"
          "\<lambda>n. 0" "[ev ''c'' 1200]"]
  by (simp add: init_def new_ErrorTracker_def withEndpoint_def noConfig_def mergeConfig_def
        orDefault_def defaultConfig_def new_ErrorQueue_def restore_def MAX_AGE_MS_def
        new_Transport_def accepted_def ok_def ev_def add_all_def add_def persist_def Let_def)

text \<open>
  C1 as the specification states it fails: with one queued event, a 2xx response without \<open>event_ids\<close>
  and one event enqueued while the send was awaited, the queue is not empty afterwards:
  the late event is still there.
\<close>

theorem flush_keeps_late_events:
  "queue (eventQueue (sendQueuedEvents (\<lambda>n. Resp (accepted None))
            (\<lambda>n. 0) [ev ''b'' 1200]
            (fst (init (withEndpoint ''https://collector.example/errors'') 1000
                    (new_ErrorTracker (Events [ev ''a'' 900]), [])))))
     = [ev ''b'' 1200]
   \<and> queue (eventQueue (sendQueuedEvents (\<lambda>n. Resp (accepted None))
            (\<lambda>n. 0) [ev ''b'' 1200]
            (fst (init (withEndpoint ''https://collector.example/errors'') 1000
                    (new_ErrorTracker (Events [ev ''a'' 900]), [])))))
     \<noteq> []"
  by (simp add: sendQueuedEvents_def init_def new_ErrorTracker_def withEndpoint_def noConfig_def
        mergeConfig_def orDefault_def defaultConfig_def new_ErrorQueue_def restore_def
        MAX_AGE_MS_def new_Transport_def accepted_def ok_def ev_def add_all_def add_def
        persist_def getAll_def send_def send_loop.simps applyResponse_def remove_def Let_def)

lemma resume_all_pending:
  "pending \<noteq> [] \<Longrightarrow> \<not> isInitialized (fst (resume_all fetch rnd (tr, pending)))
                        \<and> snd (resume_all fetch rnd (tr, pending)) = []"
proof (induction pending arbitrary: tr)
  case Nil
  then show ?case by simp
next
  case (Cons s rest)
  show ?case
  proof (cases rest)
    case Nil
    then show ?thesis
      by (simp add: shutdown_resume_def Let_def split: suspended.splits)
  next
    case (Cons s' rest')
    with Cons.IH [of "shutdown_resume fetch rnd s tr"] show ?thesis by simp
  qed
qed

lemma init_initialized: "isInitialized (fst (init userConfig now w))"
  by (simp add: init_def Let_def split: prod.splits option.splits)

lemma init_suspends:
  "isInitialized tr \<Longrightarrow> snd (init userConfig now (tr, pending)) \<noteq> []"
  by (simp add: init_def shutdown_sync_def Let_def split: prod.splits option.splits)

text \<open>
  Whenever \<open>init\<close> is called on an initialized tracker, the implicit \<open>shutdown\<close> is still
  suspended when \<open>init\<close> returns, and once the event loop has resumed it the tracker is
  not initialized.
\<close>

lemma reinit_not_initialized:
  assumes "isInitialized tr"
  shows "isInitialized (fst (init userConfig now (tr, pending)))
       \<and> snd (init userConfig now (tr, pending)) \<noteq> []
       \<and> \<not> isInitialized (fst (resume_all fetch rnd (init userConfig now (tr, pending))))"
proof -
  obtain tr' pending' where w: "init userConfig now (tr, pending) = (tr', pending')"
    by (cases "init userConfig now (tr, pending)")
  from init_suspends [OF assms, of userConfig now pending] w have "pending' \<noteq> []" by simp
  from resume_all_pending [OF this, of fetch rnd tr'] init_initialized [of userConfig now "(tr, pending)"] w
  show ?thesis using \<open>pending' \<noteq> []\<close> by simp
qed

text \<open>
  C3. Two calls of \<open>init\<close> in a row on the singleton, with an empty queue.  After the
  second call the tracker is initialized, but the implicit shutdown has not finished: it
  is suspended before its final flush.  When it resumes, it sets \<open>isInitialized\<close> to
  false, and the tracker stays uninitialized with the new handlers installed.
\<close>

theorem reinit_ends_uninitialized:
  "isInitialized (fst (init noConfig 1000 (new_ErrorTracker Absent, [])))
   \<and> snd (init noConfig 1000 (new_ErrorTracker Absent, [])) = []
   \<and> isInitialized (fst (init noConfig 2000 (init noConfig 1000 (new_ErrorTracker Absent, []))))
   \<and> snd (init noConfig 2000 (init noConfig 1000 (new_ErrorTracker Absent, []))) = [FinalFlushSkipped]
   \<and> \<not> isInitialized (fst (resume_all fetch rnd
          (init noConfig 2000 (init noConfig 1000 (new_ErrorTracker Absent, [])))))
   \<and> cleanupWindowHandlers (fst (resume_all fetch rnd
          (init noConfig 2000 (init noConfig 1000 (new_ErrorTracker Absent, [])))))"
  by (simp add: init_def new_ErrorTracker_def noConfig_def mergeConfig_def orDefault_def
        defaultConfig_def new_ErrorQueue_def restore_def new_Transport_def shutdown_sync_def
        shutdown_resume_def getAll_def Let_def)

end
